theory Spec2Isabelle
  imports Main "HOL-Library.Word"
begin

section \<open>The endpoint pool of lib_acl_cpp: connect_pool.cpp\<close>

text \<open>
  The development embeds \<^verbatim>\<open>lib_acl_cpp/src/connpool/connect_pool.cpp\<close>. A pool object is
  a record of its member variables; every member function takes the object and returns
  the object it leaves behind. What the functions read from their environment is a
  parameter: the value of \<^verbatim>\<open>time(NULL)\<close> (one reading per call: the clock is read in
  seconds and a call does no waiting of its own besides \<^verbatim>\<open>open()\<close>), the object that
  \<^verbatim>\<open>create_connect()\<close> hands out and the result of its \<^verbatim>\<open>open()\<close>.

  The header \<^verbatim>\<open>connect_pool.hpp\<close> is not among the sources. The counters \<^verbatim>\<open>max_\<close> and
  \<^verbatim>\<open>count_\<close> are taken as \<^verbatim>\<open>size_t\<close> (the constructor initialises \<^verbatim>\<open>max_\<close> from a
  \<^verbatim>\<open>size_t\<close> and the log call casts both to \<^verbatim>\<open>int\<close>), a 64-bit unsigned word whose
  decrement wraps. Times (\<^verbatim>\<open>time_t\<close>) and the two \<^verbatim>\<open>int\<close> intervals are mathematical
  integers: the differences of clock readings that the code forms stay far inside the
  range of the machine type. The member \<^verbatim>\<open>addr_\<close>, used for log messages only, is left
  out. A name cannot end in an underscore here, so a member \<^verbatim>\<open>x_\<close> of the class is the
  field \<open>x_m\<close> of the record.
\<close>

type_synonym time_t = int
type_synonym size_t = "64 word"

text \<open>
  A \<^verbatim>\<open>connect_client\<close> is known to the pool through its address (\<open>cid\<close>) and the time stamp
  behind \<^verbatim>\<open>get_when()\<close> / \<^verbatim>\<open>set_when()\<close>.
\<close>

record connect_client =
  cid :: nat
  when_m :: time_t

record connect_pool =
  alive_m :: bool
  delay_destroy_m :: bool
  last_dead_m :: time_t
  idx_m :: size_t
  max_m :: size_t
  count_m :: size_t
  idle_ttl_m :: time_t
  last_check_m :: time_t
  check_inter_m :: int
  total_used_m :: "64 word"
  current_used_m :: "64 word"
  last_m :: time_t
  retry_inter_m :: int
  pool_m :: "connect_client list"

text \<open>The constructor (lines 10-26).\<close>

definition new_connect_pool :: "size_t \<Rightarrow> size_t \<Rightarrow> connect_pool" where
  "new_connect_pool mx idx =
     \<lparr> alive_m = True, delay_destroy_m = False, last_dead_m = 0, idx_m = idx, max_m = mx,
       count_m = 0, idle_ttl_m = - 1, last_check_m = 0, check_inter_m = 30,
       total_used_m = 0, current_used_m = 0, last_m = 0, retry_inter_m = 1, pool_m = [] \<rparr>"

subsection \<open>The setters\<close>

definition set_idle_ttl :: "time_t \<Rightarrow> connect_pool \<Rightarrow> connect_pool" where
  "set_idle_ttl ttl p = p\<lparr>idle_ttl_m := ttl\<rparr>"

definition set_retry_inter :: "int \<Rightarrow> connect_pool \<Rightarrow> connect_pool" where
  "set_retry_inter retry_inter p = p\<lparr>retry_inter_m := retry_inter\<rparr>"

definition set_check_inter :: "int \<Rightarrow> connect_pool \<Rightarrow> connect_pool" where
  "set_check_inter n p = p\<lparr>check_inter_m := n\<rparr>"

text \<open>\<^verbatim>\<open>set_delay_destroy\<close> (lines 186-191): the flag is set under the lock, nothing else.\<close>

definition set_delay_destroy :: "connect_pool \<Rightarrow> connect_pool" where
  "set_delay_destroy p = p\<lparr>delay_destroy_m := True\<rparr>"

text \<open>\<^verbatim>\<open>set_alive\<close> (lines 193-200); \<open>now\<close> is what \<^verbatim>\<open>time(&last_dead_)\<close> stores.\<close>

definition set_alive :: "bool \<Rightarrow> time_t \<Rightarrow> connect_pool \<Rightarrow> connect_pool" where
  "set_alive ok now p =
     (if ok then p\<lparr>alive_m := ok\<rparr> else p\<lparr>alive_m := ok, last_dead_m := now\<rparr>)"

text \<open>\<^verbatim>\<open>aliving\<close> (lines 56-78): the answer and the object afterwards.\<close>

definition aliving :: "time_t \<Rightarrow> connect_pool \<Rightarrow> bool \<times> connect_pool" where
  "aliving now p =
     (if alive_m p then (True, p)
      else if 0 < retry_inter_m p \<and> retry_inter_m p \<le> now - last_dead_m p
           then (True, p\<lparr>alive_m := True\<rparr>)
           else (False, p))"

subsection \<open>Checkout: peek\<close>

text \<open>
  Besides the pointer it returns, a call of \<^verbatim>\<open>peek\<close> is described by the return statement
  it leaves through and by the lock operations and outside calls it makes on the way, in
  program order. Both are read off the source text: \<open>Ret_backoff\<close> is the return of line
  89, \<open>Ret_idle\<close> of line 107, \<open>Ret_too_many\<close> of line 114, \<open>Ret_open_failed\<close> of line 125
  and \<open>Ret_new\<close> of line 137.
\<close>

datatype peek_site = Ret_backoff | Ret_idle | Ret_too_many | Ret_open_failed | Ret_new

datatype event =
    Lock | Unlock | Logger_reset | Logger_error
  | Create_connect | Open bool | Delete_conn | Set_pool

record peek_result =
  p_ret :: "connect_client option"
  p_site :: peek_site
  p_trace :: "event list"
  p_pool :: connect_pool

definition peek :: "time_t \<Rightarrow> connect_client \<Rightarrow> bool \<Rightarrow> connect_pool \<Rightarrow> peek_result" where
  "peek now fresh ok p =
     (if \<not> alive_m p \<and> (retry_inter_m p \<le> 0 \<or> now - last_dead_m p < retry_inter_m p)
      then \<lparr> p_ret = None, p_site = Ret_backoff, p_trace = [Lock, Unlock], p_pool = p \<rparr>
      else
        let p1 = (if alive_m p then p else p\<lparr>alive_m := True\<rparr>);
            pre = (if alive_m p then [Lock] else [Lock, Logger_reset])
        in (case pool_m p1 of
              conn # rest \<Rightarrow>
                \<lparr> p_ret = Some conn, p_site = Ret_idle, p_trace = pre @ [Unlock],
                  p_pool = p1\<lparr>pool_m := rest,
                              total_used_m := total_used_m p1 + 1,
                              current_used_m := current_used_m p1 + 1\<rparr> \<rparr>
            | [] \<Rightarrow>
                if 0 < max_m p1 \<and> max_m p1 \<le> count_m p1
                then \<lparr> p_ret = None, p_site = Ret_too_many,
                       p_trace = pre @ [Logger_error, Unlock], p_pool = p1 \<rparr>
                else if \<not> ok
                then \<lparr> p_ret = None, p_site = Ret_open_failed,
                       p_trace = pre @ [Create_connect, Open False, Delete_conn, Unlock],
                       p_pool = p1\<lparr>alive_m := False, last_dead_m := now\<rparr> \<rparr>
                else \<lparr> p_ret = Some fresh, p_site = Ret_new,
                       p_trace = pre @ [Create_connect, Open True, Unlock, Set_pool],
                       p_pool = p1\<lparr>count_m := count_m p1 + 1,
                                   total_used_m := total_used_m p1 + 1,
                                   current_used_m := current_used_m p1 + 1\<rparr> \<rparr>))"

subsection \<open>Idle reaping: check_idle\<close>

text \<open>
  The loop of lines 237-256 walks the idle list from its back. \<open>check_idle_loop\<close> takes the
  list back first and returns, back first as well, what is left of it, with the number
  \<open>n\<close> of deleted entries: an entry whose time stamp is not positive is stepped over, the
  first entry younger than \<open>ttl\<close> ends the walk, every other entry is deleted.
\<close>

fun check_idle_loop ::
  "time_t \<Rightarrow> time_t \<Rightarrow> connect_client list \<Rightarrow> connect_client list \<times> nat" where
  "check_idle_loop now ttl [] = ([], 0)"
| "check_idle_loop now ttl (c # cs) =
     (if when_m c \<le> 0
      then (case check_idle_loop now ttl cs of (kept, n) \<Rightarrow> (c # kept, n))
      else if now - when_m c < ttl then (c # cs, 0)
      else (case check_idle_loop now ttl cs of (kept, n) \<Rightarrow> (kept, Suc n)))"

text \<open>
  \<^verbatim>\<open>check_idle\<close> (lines 202-261). The flag \<open>exclusive\<close> only decides whether the call takes
  the lock itself. The loop decrements \<^verbatim>\<open>count_\<close> once for each deleted entry, \<open>n\<close> times
  in all; the branch for \<open>ttl = 0\<close> stores 0 in it.
\<close>

definition check_idle :: "time_t \<Rightarrow> bool \<Rightarrow> time_t \<Rightarrow> connect_pool \<Rightarrow> int \<times> connect_pool" where
  "check_idle ttl exclusive now p =
     (if ttl < 0 then (0, p)
      else if pool_m p = [] then (0, p)
      else if ttl = 0 then (int (length (pool_m p)), p\<lparr>pool_m := [], count_m := 0\<rparr>)
      else (case check_idle_loop now ttl (rev (pool_m p)) of
              (kept, n) \<Rightarrow>
                (int n, p\<lparr>pool_m := rev kept, count_m := count_m p - of_nat n\<rparr>)))"

subsection \<open>Checkin: put\<close>

text \<open>
  A call of \<^verbatim>\<open>put\<close> leaves the object alive, or has deleted it (\<^verbatim>\<open>delete this\<close>, line 156),
  or has stopped the program in \<^verbatim>\<open>acl_assert(count_ > 0)\<close> (line 173).
\<close>

datatype status = Live connect_pool | Destroyed | Aborted

definition put :: "connect_client \<Rightarrow> bool \<Rightarrow> time_t \<Rightarrow> connect_pool \<Rightarrow> status" where
  "put conn keep now p =
     (if delay_destroy_m p
      then (let p1 = p\<lparr>count_m := count_m p - 1\<rparr>
            in if count_m p1 \<le> 0 then Destroyed else Live p1)
      else if \<not> (keep \<and> alive_m p) \<and> \<not> 0 < count_m p then Aborted
      else
        let p1 = (if keep \<and> alive_m p
                  then p\<lparr>pool_m := conn\<lparr>when_m := now\<rparr> # pool_m p\<rparr>
                  else p\<lparr>count_m := count_m p - 1\<rparr>)
        in if 0 \<le> idle_ttl_m p1 \<and> check_inter_m p1 \<le> now - last_check_m p1
           then Live ((snd (check_idle (idle_ttl_m p1) False now p1))\<lparr>last_check_m := now\<rparr>)
           else Live p1)"

subsection \<open>A caller\<close>

text \<open>
  A caller makes calls on one pool, one after the other; each call is made on the object
  as the call before left it. Nothing is called on an object that was deleted, and nothing
  after the program was stopped.
\<close>

datatype call =
    Peek time_t connect_client bool
  | Put connect_client bool time_t
  | Aliving time_t
  | Set_alive bool time_t
  | Set_delay_destroy
  | Set_retry_inter int
  | Set_idle_ttl time_t
  | Set_check_inter int
  | Check_idle time_t bool time_t

datatype reply = Conn "connect_client option" | Flag bool | Count int | Void

fun exec :: "call \<Rightarrow> connect_pool \<Rightarrow> reply \<times> status" where
  "exec (Peek now fresh ok) p = (let r = peek now fresh ok p in (Conn (p_ret r), Live (p_pool r)))"
| "exec (Put conn keep now) p = (Void, put conn keep now p)"
| "exec (Aliving now) p = (case aliving now p of (b, p') \<Rightarrow> (Flag b, Live p'))"
| "exec (Set_alive ok now) p = (Void, Live (set_alive ok now p))"
| "exec Set_delay_destroy p = (Void, Live (set_delay_destroy p))"
| "exec (Set_retry_inter n) p = (Void, Live (set_retry_inter n p))"
| "exec (Set_idle_ttl ttl) p = (Void, Live (set_idle_ttl ttl p))"
| "exec (Set_check_inter n) p = (Void, Live (set_check_inter n p))"
| "exec (Check_idle ttl exclusive now) p =
     (case check_idle ttl exclusive now p of (n, p') \<Rightarrow> (Count n, Live p'))"

fun run :: "call list \<Rightarrow> connect_pool \<Rightarrow> reply list \<times> status" where
  "run [] p = ([], Live p)"
| "run (c # cs) p =
     (case exec c p of
        (r, Live p') \<Rightarrow> (case run cs p' of (rs, s) \<Rightarrow> (r # rs, s))
      | (r, s) \<Rightarrow> ([r], s))"

text \<open>
  The connections a caller holds after a run: every connection a \<open>Peek\<close> returned, less
  those handed back by a \<open>Put\<close>.
\<close>

fun checked_out :: "call list \<Rightarrow> reply list \<Rightarrow> nat list \<Rightarrow> nat list" where
  "checked_out (Peek now fresh ok # cs) (Conn (Some c) # rs) held =
     checked_out cs rs (cid c # held)"
| "checked_out (Put conn keep now # cs) (r # rs) held =
     checked_out cs rs (remove1 (cid conn) held)"
| "checked_out (c # cs) (r # rs) held = checked_out cs rs held"
| "checked_out cs rs held = held"

subsection \<open>Vocabulary of the properties\<close>

text \<open>
  The three outcomes of a checkout that callers are told about, and the return statement
  each belongs to: a connection is obtained from the idle list or by a successful
  \<^verbatim>\<open>open()\<close>; the endpoint is dead when the pool backs off and when \<^verbatim>\<open>open()\<close> has just
  failed; the capacity is exceeded at the return that follows the log message "too many
  connections".
\<close>

datatype outcome = Obtained | EndpointDead | CapacityExceeded

fun outcome_of :: "peek_site \<Rightarrow> outcome" where
  "outcome_of Ret_backoff = EndpointDead"
| "outcome_of Ret_idle = Obtained"
| "outcome_of Ret_too_many = CapacityExceeded"
| "outcome_of Ret_open_failed = EndpointDead"
| "outcome_of Ret_new = Obtained"

text \<open>
  Reading a trace from the left with the state of the lock (\<open>held\<close>): is there a call of
  \<^verbatim>\<open>open()\<close> made while the lock is held, and is there one made while it is not.
\<close>

fun open_under_lock :: "bool \<Rightarrow> event list \<Rightarrow> bool" where
  "open_under_lock held [] = False"
| "open_under_lock held (Lock # es) = open_under_lock True es"
| "open_under_lock held (Unlock # es) = open_under_lock False es"
| "open_under_lock held (Open ok # es) = (if held then True else open_under_lock held es)"
| "open_under_lock held (e # es) = open_under_lock held es"

fun open_outside_lock :: "bool \<Rightarrow> event list \<Rightarrow> bool" where
  "open_outside_lock held [] = False"
| "open_outside_lock held (Lock # es) = open_outside_lock True es"
| "open_outside_lock held (Unlock # es) = open_outside_lock False es"
| "open_outside_lock held (Open ok # es) = (if held then open_outside_lock held es else True)"
| "open_outside_lock held (e # es) = open_outside_lock held es"

text \<open>
  Checkouts made one after the other, each on the pool as the one before left it.
\<close>

fun peeks :: "(time_t \<times> connect_client \<times> bool) list \<Rightarrow> connect_pool \<Rightarrow> peek_result list" where
  "peeks [] p = []"
| "peeks ((now, fresh, ok) # cs) p =
     (let r = peek now fresh ok p in r # peeks cs (p_pool r))"

text \<open>
  The calls that bring a dead pool back by the caller's own hand (\<^verbatim>\<open>set_alive(true)\<close>, or
  a positive retry interval), and what it means for a reply to refuse: a checkout returns
  \<^verbatim>\<open>NULL\<close>, \<^verbatim>\<open>aliving\<close> returns false.
\<close>

fun heals :: "call \<Rightarrow> bool" where
  "heals (Set_alive ok now) = ok"
| "heals (Set_retry_inter n) = (0 < n)"
| "heals c = False"

fun refused :: "call \<Rightarrow> reply \<Rightarrow> bool" where
  "refused (Peek now fresh ok) r = (r = Conn None)"
| "refused (Aliving now) r = (r = Flag False)"
| "refused c r = True"

text \<open>
  For the reaping: a connection is expired when it has been idle for \<open>ttl\<close> or longer, and
  unstamped when its time stamp is not positive; the walk of \<^verbatim>\<open>check_idle\<close> passes both.
\<close>

definition expired :: "time_t \<Rightarrow> time_t \<Rightarrow> connect_client \<Rightarrow> bool" where
  "expired now ttl c = (ttl \<le> now - when_m c)"

definition unstamped :: "connect_client \<Rightarrow> bool" where
  "unstamped c = (when_m c \<le> 0)"

definition passed :: "time_t \<Rightarrow> time_t \<Rightarrow> connect_client \<Rightarrow> bool" where
  "passed now ttl c = (if unstamped c then True else expired now ttl c)"

text \<open>
  An idle list is stamped when every connection in it has a positive time stamp, and time
  ordered when the time stamps do not grow from the front to the back. The checkins of a
  run are in time when each reads a positive clock that is not behind the one before.
  \<open>stamped_until t\<close> is both properties with no stamp later than \<open>t\<close>.
\<close>

definition stamped :: "connect_client list \<Rightarrow> bool" where
  "stamped xs = list_all (\<lambda>c. 0 < when_m c) xs"

definition time_ordered :: "connect_client list \<Rightarrow> bool" where
  "time_ordered xs = sorted_wrt (\<lambda>a b. when_m b \<le> when_m a) xs"

fun puts_in_time :: "time_t \<Rightarrow> call list \<Rightarrow> bool" where
  "puts_in_time t [] = True"
| "puts_in_time t (Put conn keep now # cs) =
     (if 0 < now \<and> t \<le> now then puts_in_time now cs else False)"
| "puts_in_time t (c # cs) = puts_in_time t cs"

definition stamped_until :: "time_t \<Rightarrow> connect_client list \<Rightarrow> bool" where
  "stamped_until t xs =
     (list_all (\<lambda>c. 0 < when_m c \<and> when_m c \<le> t) xs \<and>
      sorted_wrt (\<lambda>a b. when_m b \<le> when_m a) xs)"


text \<open>Four connection objects, as \<^verbatim>\<open>create_connect()\<close> hands them out.\<close>

abbreviation conn1 :: connect_client where "conn1 \<equiv> \<lparr>cid = 1, when_m = 0\<rparr>"
abbreviation conn2 :: connect_client where "conn2 \<equiv> \<lparr>cid = 2, when_m = 0\<rparr>"
abbreviation conn3 :: connect_client where "conn3 \<equiv> \<lparr>cid = 3, when_m = 0\<rparr>"
abbreviation conn4 :: connect_client where "conn4 \<equiv> \<lparr>cid = 4, when_m = 0\<rparr>"

text \<open>
  A caller is disciplined when every connection it hands to \<^verbatim>\<open>put\<close> is one it holds: it
  came from a \<^verbatim>\<open>peek\<close> of this pool and has not been handed back since. A call is a zero
  sweep when it sets the idle TTL to 0 or calls \<^verbatim>\<open>check_idle(0)\<close>. A pool of positive
  capacity is counted, for \<open>h\<close> connections held by callers, when \<^verbatim>\<open>count_\<close> is the number
  of idle connections plus \<open>h\<close> and is within \<^verbatim>\<open>max_\<close>, and the idle TTL is not 0.
\<close>

fun disciplined :: "call list \<Rightarrow> reply list \<Rightarrow> nat list \<Rightarrow> bool" where
  "disciplined (Peek now fresh ok # cs) (Conn (Some c) # rs) held =
     disciplined cs rs (cid c # held)"
| "disciplined (Put conn keep now # cs) (r # rs) held =
     (if cid conn \<in> set held then disciplined cs rs (remove1 (cid conn) held) else False)"
| "disciplined (c # cs) (r # rs) held = disciplined cs rs held"
| "disciplined cs rs held = True"

fun zero_sweep :: "call \<Rightarrow> bool" where
  "zero_sweep (Set_idle_ttl ttl) = (ttl = 0)"
| "zero_sweep (Check_idle ttl exclusive now) = (ttl = 0)"
| "zero_sweep c = False"

definition counted :: "connect_pool \<Rightarrow> nat \<Rightarrow> bool" where
  "counted p h =
     (unat (count_m p) = length (pool_m p) + h \<and> 0 < max_m p \<and>
      count_m p \<le> max_m p \<and> idle_ttl_m p \<noteq> 0)"

section \<open>The pending-destruction flag and checkout\<close>

text \<open>
  C3 (as the code has it). \<^verbatim>\<open>peek\<close> never reads \<^verbatim>\<open>delay_destroy_\<close>: a checkout made after
  \<^verbatim>\<open>set_delay_destroy\<close> returns what it returns without the flag, takes the same path and
  leaves the same object, with the flag still set.
\<close>

theorem peek_ignores_delay_destroy:
  "peek now fresh ok (set_delay_destroy p) =
     (peek now fresh ok p)\<lparr>p_pool := set_delay_destroy (p_pool (peek now fresh ok p))\<rparr>"
  by (simp add: peek_def set_delay_destroy_def Let_def split: list.split)

text \<open>
  The claim of C3 as stated fails: on a new pool of capacity 1, a checkout after
  \<^verbatim>\<open>set_delay_destroy\<close> whose \<^verbatim>\<open>open()\<close> succeeds returns the connection.
\<close>

theorem peek_after_delay_destroy_returns:
  "delay_destroy_m (set_delay_destroy (new_connect_pool 1 0)) \<and>
   p_ret (peek 100 conn1 True (set_delay_destroy (new_connect_pool 1 0)))
     = Some conn1"
  by (simp add: peek_def set_delay_destroy_def new_connect_pool_def)

section \<open>What the caller of peek can tell from its return value\<close>

text \<open>
  C5 (as the code has it). The pointer \<^verbatim>\<open>peek\<close> returns has two cases only: it is a
  connection exactly when a connection was obtained, and \<^verbatim>\<open>NULL\<close> for every refusal, the
  dead endpoint and the exceeded capacity alike. What sets the capacity refusal apart is
  the error it logs, not the value it returns.
\<close>

theorem peek_ret_two_valued:
  "(p_ret (peek now fresh ok p) = None)
     = (outcome_of (p_site (peek now fresh ok p)) \<noteq> Obtained) \<and>
   (Logger_error \<in> set (p_trace (peek now fresh ok p)))
     = (outcome_of (p_site (peek now fresh ok p)) = CapacityExceeded)"
  by (simp add: peek_def Let_def split: list.split)

text \<open>
  The claim of C5 as stated fails: on a pool of capacity 1, the checkout that follows a
  failed \<^verbatim>\<open>open()\<close> within the retry interval is refused for the dead endpoint, the
  checkout that follows a successful one is refused for the capacity, and both return the
  same value.
\<close>

theorem peek_refusals_same_value:
  "outcome_of (p_site (peek 100 conn2 True
       (p_pool (peek 100 conn1 False (new_connect_pool 1 0)))))
     = EndpointDead \<and>
   outcome_of (p_site (peek 100 conn2 True
       (p_pool (peek 100 conn1 True (new_connect_pool 1 0)))))
     = CapacityExceeded \<and>
   p_ret (peek 100 conn2 True
       (p_pool (peek 100 conn1 False (new_connect_pool 1 0))))
     = p_ret (peek 100 conn2 True
       (p_pool (peek 100 conn1 True (new_connect_pool 1 0))))"
  by (simp add: peek_def new_connect_pool_def)

section \<open>The lock and open()\<close>

text \<open>
  C8 (as the code has it). \<^verbatim>\<open>peek\<close> takes the lock on entry and gives it back just before
  each return: on the two paths that create a connection, \<^verbatim>\<open>open()\<close> runs while the lock
  is held, and on no path does \<^verbatim>\<open>open()\<close> run outside the lock.
\<close>

theorem peek_open_under_lock:
  "open_under_lock False (p_trace (peek now fresh ok p))
     = (p_site (peek now fresh ok p) = Ret_open_failed \<or> p_site (peek now fresh ok p) = Ret_new) \<and>
   \<not> open_outside_lock False (p_trace (peek now fresh ok p))"
  by (simp add: peek_def Let_def split: list.split)

text \<open>
  The claim of C8 as stated fails: the first checkout on a new pool calls \<^verbatim>\<open>open()\<close> with
  the lock held.
\<close>

theorem peek_new_pool_opens_locked:
  "open_under_lock False
     (p_trace (peek 100 conn1 True (new_connect_pool 1 0)))"
  by (simp add: peek_def new_connect_pool_def)

section \<open>Backoff after a failed open\<close>

lemma peek_backoff:
  "\<not> alive_m d \<Longrightarrow> now - last_dead_m d < retry_inter_m d \<Longrightarrow>
   peek now fresh ok d = \<lparr> p_ret = None, p_site = Ret_backoff, p_trace = [Lock, Unlock], p_pool = d \<rparr>"
  by (simp add: peek_def)

lemma peeks_backoff:
  "\<not> alive_m d \<Longrightarrow> \<forall>x \<in> set early. fst x - last_dead_m d < retry_inter_m d \<Longrightarrow>
   peeks (early @ rest) d
     = map (\<lambda>x. \<lparr> p_ret = None, p_site = Ret_backoff, p_trace = [Lock, Unlock], p_pool = d \<rparr>) early
       @ peeks rest d"
  by (induction early) (auto simp: peek_backoff Let_def)

lemma peek_dead:
  "\<not> alive_m p \<Longrightarrow> retry_inter_m p \<le> 0 \<Longrightarrow>
   peek now fresh ok p
     = \<lparr> p_ret = None, p_site = Ret_backoff, p_trace = [Lock, Unlock], p_pool = p \<rparr>"
  by (simp add: peek_def)

lemma peeks_dead:
  "\<not> alive_m d \<Longrightarrow> retry_inter_m d \<le> 0 \<Longrightarrow>
   peeks later d
     = map (\<lambda>x. \<lparr> p_ret = None, p_site = Ret_backoff, p_trace = [Lock, Unlock], p_pool = d \<rparr>) later"
  by (induction later) (auto simp: peek_dead Let_def)

lemma failed_open_state:
  "p_site (peek t0 c0 ok0 p) = Ret_open_failed \<Longrightarrow>
   \<not> alive_m (p_pool (peek t0 c0 ok0 p)) \<and> last_dead_m (p_pool (peek t0 c0 ok0 p)) = t0 \<and>
   pool_m (p_pool (peek t0 c0 ok0 p)) = [] \<and>
   \<not> (0 < max_m (p_pool (peek t0 c0 ok0 p)) \<and> max_m (p_pool (peek t0 c0 ok0 p)) \<le> count_m (p_pool (peek t0 c0 ok0 p))) \<and>
   retry_inter_m (p_pool (peek t0 c0 ok0 p)) = retry_inter_m p"
  by (auto simp: peek_def Let_def split: list.splits if_splits)

lemma peek_retry:
  "\<not> alive_m d \<Longrightarrow> 0 < retry_inter_m d \<Longrightarrow> retry_inter_m d \<le> t1 - last_dead_m d \<Longrightarrow>
   pool_m d = [] \<Longrightarrow> \<not> (0 < max_m d \<and> max_m d \<le> count_m d) \<Longrightarrow>
   p_trace (peek t1 c1 ok1 d)
       = [Lock, Logger_reset, Create_connect, Open ok1]
         @ (if ok1 then [Unlock, Set_pool] else [Delete_conn, Unlock]) \<and>
   p_site (peek t1 c1 ok1 d) = (if ok1 then Ret_new else Ret_open_failed) \<and>
   alive_m (p_pool (peek t1 c1 ok1 d)) = ok1"
  by (simp add: peek_def Let_def)

text \<open>
  C4 (as the code has it). Let a checkout at time \<open>t0\<close> have failed to open, and let \<open>d\<close> be
  the pool it leaves: \<open>d\<close> is dead and its failure time is \<open>t0\<close>. Every checkout made
  then at a time less than the retry interval after \<open>t0\<close> takes the backoff return: it
  returns \<^verbatim>\<open>NULL\<close>, calls no \<^verbatim>\<open>open()\<close> and leaves \<open>d\<close> as it is. When the retry interval is
  positive, the first checkout at a time \<open>t1\<close> with \<open>t1 - t0\<close> not below the interval sets
  the pool alive and calls \<^verbatim>\<open>open()\<close>; the pool is alive afterwards exactly when that
  \<^verbatim>\<open>open()\<close> succeeds. When the retry interval is zero or negative, no checkout brings the
  pool back: all checkouts made then, at whatever times, take the backoff return and leave
  \<open>d\<close> as it is.
\<close>

theorem backoff_then_retry:
  assumes failed: "p_site (peek t0 c0 ok0 p) = Ret_open_failed"
    and d: "d = p_pool (peek t0 c0 ok0 p)"
    and early: "\<forall>x \<in> set early. fst x - t0 < retry_inter_m p"
  shows "\<not> alive_m d \<and> last_dead_m d = t0 \<and>
         peeks (early @ [(t1, c1, ok1)]) d
           = map (\<lambda>x. \<lparr> p_ret = None, p_site = Ret_backoff, p_trace = [Lock, Unlock], p_pool = d \<rparr>) early
             @ [peek t1 c1 ok1 d] \<and>
         (0 < retry_inter_m p \<and> retry_inter_m p \<le> t1 - t0 \<longrightarrow>
            p_trace (peek t1 c1 ok1 d)
              = [Lock, Logger_reset, Create_connect, Open ok1]
                @ (if ok1 then [Unlock, Set_pool] else [Delete_conn, Unlock]) \<and>
            p_site (peek t1 c1 ok1 d) = (if ok1 then Ret_new else Ret_open_failed) \<and>
            alive_m (p_pool (peek t1 c1 ok1 d)) = ok1) \<and>
         (retry_inter_m p \<le> 0 \<longrightarrow>
            peeks later d
              = map (\<lambda>x. \<lparr> p_ret = None, p_site = Ret_backoff, p_trace = [Lock, Unlock], p_pool = d \<rparr>)
                  later)"
proof -
  from failed_open_state [OF failed] d
  have st: "\<not> alive_m d" "last_dead_m d = t0" "pool_m d = []"
    "\<not> (0 < max_m d \<and> max_m d \<le> count_m d)" "retry_inter_m d = retry_inter_m p"
    by simp_all
  from early st have e: "\<forall>x \<in> set early. fst x - last_dead_m d < retry_inter_m d"
    by simp
  have seq: "peeks (early @ [(t1, c1, ok1)]) d
           = map (\<lambda>x. \<lparr> p_ret = None, p_site = Ret_backoff, p_trace = [Lock, Unlock], p_pool = d \<rparr>) early
             @ [peek t1 c1 ok1 d]"
    using peeks_backoff [OF st(1) e, of "[(t1, c1, ok1)]"] by (simp add: Let_def)
  have late: "0 < retry_inter_m p \<and> retry_inter_m p \<le> t1 - t0 \<longrightarrow>
            p_trace (peek t1 c1 ok1 d)
              = [Lock, Logger_reset, Create_connect, Open ok1]
                @ (if ok1 then [Unlock, Set_pool] else [Delete_conn, Unlock]) \<and>
            p_site (peek t1 c1 ok1 d) = (if ok1 then Ret_new else Ret_open_failed) \<and>
            alive_m (p_pool (peek t1 c1 ok1 d)) = ok1"
    using peek_retry [of d t1 c1 ok1] st by simp
  have never: "retry_inter_m p \<le> 0 \<longrightarrow>
            peeks later d
              = map (\<lambda>x. \<lparr> p_ret = None, p_site = Ret_backoff, p_trace = [Lock, Unlock], p_pool = d \<rparr>)
                  later"
    using peeks_dead [of d later] st by simp
  from st seq late never show ?thesis by blast
qed

theorem backoff_then_retry_witness:
  "peeks [(101, conn2, True), (105, conn3, True)]
      (p_pool (peek 100 conn1 False (set_retry_inter 5 (new_connect_pool 2 0))))
   = [\<lparr> p_ret = None, p_site = Ret_backoff, p_trace = [Lock, Unlock],
        p_pool = p_pool (peek 100 conn1 False (set_retry_inter 5 (new_connect_pool 2 0))) \<rparr>,
      peek 105 conn3 True
        (p_pool (peek 100 conn1 False (set_retry_inter 5 (new_connect_pool 2 0))))] \<and>
   p_site (peek 105 conn3 True
        (p_pool (peek 100 conn1 False (set_retry_inter 5 (new_connect_pool 2 0)))))
     = Ret_new \<and>
   peeks [(100, conn2, True), (5000, conn3, True)]
      (p_pool (peek 100 conn1 False (set_retry_inter 0 (new_connect_pool 2 0))))
   = [\<lparr> p_ret = None, p_site = Ret_backoff, p_trace = [Lock, Unlock],
        p_pool = p_pool (peek 100 conn1 False (set_retry_inter 0 (new_connect_pool 2 0))) \<rparr>,
      \<lparr> p_ret = None, p_site = Ret_backoff, p_trace = [Lock, Unlock],
        p_pool = p_pool (peek 100 conn1 False (set_retry_inter 0 (new_connect_pool 2 0))) \<rparr>]"
  using backoff_then_retry [of 100 "conn1" False "set_retry_inter 5 (new_connect_pool 2 0)"
      "p_pool (peek 100 conn1 False (set_retry_inter 5 (new_connect_pool 2 0)))"
      "[(101, conn2, True)]" 105 "conn3" True "[]"]
    backoff_then_retry [of 100 "conn1" False "set_retry_inter 0 (new_connect_pool 2 0)"
      "p_pool (peek 100 conn1 False (set_retry_inter 0 (new_connect_pool 2 0)))"
      "[]" 100 "conn2" True "[(100, conn2, True), (5000, conn3, True)]"]
  by (simp add: peek_def set_retry_inter_def new_connect_pool_def)

text \<open>
  The claim of C4 as stated fails for a retry interval that is not positive: with the
  interval 0 and a failed \<^verbatim>\<open>open()\<close> at time 100, the checkout at time 200 is at least the
  interval after the failure, and is still refused by the backoff return, the pool staying
  dead.
\<close>

theorem no_retry_when_interval_zero:
  "\<not> alive_m (p_pool (peek 100 conn1 False (set_retry_inter 0 (new_connect_pool 2 0)))) \<and>
   last_dead_m (p_pool (peek 100 conn1 False (set_retry_inter 0 (new_connect_pool 2 0)))) = 100 \<and>
   retry_inter_m (p_pool (peek 100 conn1 False (set_retry_inter 0 (new_connect_pool 2 0))))
     \<le> 200 - 100 \<and>
   p_site (peek 200 conn2 True
       (p_pool (peek 100 conn1 False (set_retry_inter 0 (new_connect_pool 2 0)))))
     = Ret_backoff \<and>
   \<not> alive_m (p_pool (peek 200 conn2 True
       (p_pool (peek 100 conn1 False (set_retry_inter 0 (new_connect_pool 2 0))))))"
  by (simp add: peek_def set_retry_inter_def new_connect_pool_def)

section \<open>A retry interval that is not positive\<close>

lemma check_idle_keeps_health:
  "alive_m (snd (check_idle ttl ex now p)) = alive_m p \<and>
   retry_inter_m (snd (check_idle ttl ex now p)) = retry_inter_m p"
  by (simp add: check_idle_def split: prod.split)

lemma put_keeps_health:
  "put conn keep now p = Live p' \<Longrightarrow>
   alive_m p' = alive_m p \<and> retry_inter_m p' = retry_inter_m p"
  by (auto simp: put_def Let_def check_idle_keeps_health split: if_splits)

lemma aliving_dead:
  "\<not> alive_m p \<Longrightarrow> retry_inter_m p \<le> 0 \<Longrightarrow> aliving now p = (False, p)"
  by (simp add: aliving_def)

lemma exec_dead:
  assumes "\<not> alive_m p" "retry_inter_m p \<le> 0" "\<not> heals c"
  shows "refused c (fst (exec c p)) \<and>
         (\<forall>p'. snd (exec c p) = Live p' \<longrightarrow> \<not> alive_m p' \<and> retry_inter_m p' \<le> 0)"
proof (cases c)
  case (Peek now fresh ok)
  with assms show ?thesis by (simp add: peek_dead)
next
  case (Put conn keep now)
  with assms show ?thesis by (auto dest: put_keeps_health)
next
  case (Aliving now)
  with assms show ?thesis by (simp add: aliving_dead)
next
  case (Set_alive ok now)
  with assms show ?thesis by (simp add: set_alive_def)
next
  case Set_delay_destroy
  with assms show ?thesis by (simp add: set_delay_destroy_def)
next
  case (Set_retry_inter n)
  with assms show ?thesis by (simp add: set_retry_inter_def)
next
  case (Set_idle_ttl ttl)
  with assms show ?thesis by (simp add: set_idle_ttl_def)
next
  case (Set_check_inter n)
  with assms show ?thesis by (simp add: set_check_inter_def)
next
  case (Check_idle ttl ex now)
  with assms show ?thesis
    using check_idle_keeps_health [of ttl ex now p]
    by (cases "check_idle ttl ex now p") simp
qed

lemma run_Cons_Live:
  "exec c p = (r, Live p') \<Longrightarrow> run (c # cs) p = (r # fst (run cs p'), snd (run cs p'))"
  by (simp split: prod.split)

text \<open>
  C10. A dead pool whose retry interval is zero or negative does not come back by itself:
  in every run of calls none of which is \<^verbatim>\<open>set_alive(true)\<close> or sets a positive retry
  interval, at whatever times, every checkout returns \<^verbatim>\<open>NULL\<close> and every call of
  \<^verbatim>\<open>aliving\<close> returns false.
\<close>

theorem dead_pool_never_heals:
  "\<not> alive_m p \<Longrightarrow> retry_inter_m p \<le> 0 \<Longrightarrow> \<forall>c \<in> set cs. \<not> heals c \<Longrightarrow>
   \<forall>x \<in> set (zip cs (fst (run cs p))). refused (fst x) (snd x)"
proof (induction cs arbitrary: p)
  case Nil
  then show ?case by simp
next
  case (Cons c cs)
  have nh: "\<not> heals c" using Cons.prems(3) by simp
  obtain r s where ex: "exec c p = (r, s)" by (cases "exec c p")
  note step = exec_dead [OF Cons.prems(1,2) nh]
  from step ex have here: "refused c r" by simp
  show ?case
  proof (cases s)
    case (Live p')
    with ex have "snd (exec c p) = Live p'" by simp
    with step have inv: "\<not> alive_m p'" "retry_inter_m p' \<le> 0" by simp_all
    from Cons.prems(3) have "\<forall>c \<in> set cs. \<not> heals c" by simp
    from Cons.IH [OF inv this]
    have rest: "\<forall>x \<in> set (zip cs (fst (run cs p'))). refused (fst x) (snd x)" .
    from ex Live have "exec c p = (r, Live p')" by simp
    then have "run (c # cs) p = (r # fst (run cs p'), snd (run cs p'))"
      by (rule run_Cons_Live)
    with here rest show ?thesis by simp
  next
    case Destroyed
    with ex have "run (c # cs) p = ([r], s)" by simp
    with here show ?thesis by simp
  next
    case Aborted
    with ex have "run (c # cs) p = ([r], s)" by simp
    with here show ?thesis by simp
  qed
qed

theorem dead_pool_never_heals_witness:
  "fst (run [Peek 500 conn2 True, Aliving 900, Set_alive False 901,
             Peek 5000 conn3 True]
        (p_pool (peek 100 conn1 False (set_retry_inter 0 (new_connect_pool 2 0)))))
   = [Conn None, Flag False, Void, Conn None]"
  using dead_pool_never_heals [of
      "p_pool (peek 100 conn1 False (set_retry_inter 0 (new_connect_pool 2 0)))"
      "[Peek 500 conn2 True, Aliving 900, Set_alive False 901,
        Peek 5000 conn3 True]"]
  by (simp add: peek_def aliving_def set_alive_def set_retry_inter_def new_connect_pool_def)

section \<open>Time stamps of the idle list\<close>

text \<open>
  Only \<^verbatim>\<open>put\<close> adds to the idle list, at the front and with the clock reading as the time
  stamp; \<^verbatim>\<open>peek\<close> and \<^verbatim>\<open>check_idle\<close> only take connections away. So in every pool reached
  from a new one by a run whose checkins are in time, the idle list is stamped and time
  ordered.
\<close>

lemma check_idle_loop_sub:
  "check_idle_loop now ttl xs = (kept, n) \<Longrightarrow>
   set kept \<subseteq> set xs \<and> (sorted_wrt R xs \<longrightarrow> sorted_wrt R kept)"
proof (induction xs arbitrary: kept n)
  case Nil
  then show ?case by simp
next
  case (Cons c cs)
  obtain k m where rec: "check_idle_loop now ttl cs = (k, m)"
    by (cases "check_idle_loop now ttl cs")
  from Cons.IH [OF rec] have sub: "set k \<subseteq> set cs" and so: "sorted_wrt R cs \<longrightarrow> sorted_wrt R k"
    by simp_all
  from Cons.prems rec
  have "kept = c # k \<or> kept = c # cs \<or> kept = k"
    by (auto split: if_splits)
  with sub so show ?case by (auto simp: subset_iff)
qed

lemma check_idle_stamped_until:
  assumes "stamped_until t (pool_m p)"
  shows "stamped_until t (pool_m (snd (check_idle ttl ex now p)))"
proof (cases "ttl < 0 \<or> pool_m p = [] \<or> ttl = 0")
  case True
  with assms show ?thesis by (auto simp: check_idle_def stamped_until_def)
next
  case False
  obtain kept n where loop: "check_idle_loop now ttl (rev (pool_m p)) = (kept, n)"
    by (cases "check_idle_loop now ttl (rev (pool_m p))")
  from check_idle_loop_sub [OF loop, of "\<lambda>a b. when_m a \<le> when_m b"]
  have sub: "set kept \<subseteq> set (pool_m p)"
    and so: "sorted_wrt (\<lambda>a b. when_m a \<le> when_m b) (rev (pool_m p)) \<longrightarrow>
             sorted_wrt (\<lambda>a b. when_m a \<le> when_m b) kept"
    by simp_all
  from assms so have "sorted_wrt (\<lambda>a b. when_m b \<le> when_m a) (rev kept)"
    by (simp add: stamped_until_def sorted_wrt_rev)
  moreover from assms sub have "list_all (\<lambda>c. 0 < when_m c \<and> when_m c \<le> t) (rev kept)"
    by (auto simp: stamped_until_def list_all_iff)
  moreover from False loop have "pool_m (snd (check_idle ttl ex now p)) = rev kept"
    by (simp add: check_idle_def)
  ultimately show ?thesis by (simp add: stamped_until_def)
qed

lemma stamped_until_mono:
  "stamped_until t xs \<Longrightarrow> t \<le> t' \<Longrightarrow> stamped_until t' xs"
  by (auto simp: stamped_until_def list_all_iff)

lemma peek_stamped_until:
  "stamped_until t (pool_m p) \<Longrightarrow> stamped_until t (pool_m (p_pool (peek now fresh ok p)))"
  by (auto simp: peek_def Let_def stamped_until_def split: list.splits)

lemma put_stamped_until:
  assumes inv: "stamped_until t (pool_m p)" and clock: "0 < now" "t \<le> now"
    and live: "put conn keep now p = Live q"
  shows "stamped_until now (pool_m q)"
proof -
  from inv clock have old: "stamped_until now (pool_m p)" by (rule_tac stamped_until_mono)
  from inv clock have new: "stamped_until now (conn\<lparr>when_m := now\<rparr> # pool_m p)"
    by (auto simp: stamped_until_def list_all_iff)
  have sw: "stamped_until now (pool_m r) \<Longrightarrow>
      stamped_until now (pool_m ((snd (check_idle ttl False now r))\<lparr>last_check_m := now\<rparr>))" for r ttl
    using check_idle_stamped_until [of now r ttl False now] by simp
  from live show ?thesis
  proof (cases "delay_destroy_m p")
    case True
    with live old show ?thesis by (auto simp: put_def Let_def split: if_splits)
  next
    case False
    show ?thesis
    proof (cases "keep \<and> alive_m p")
      case True
      with False live new sw [of "p\<lparr>pool_m := conn\<lparr>when_m := now\<rparr> # pool_m p\<rparr>" "idle_ttl_m p"]
      show ?thesis by (auto simp: put_def Let_def split: if_splits)
    next
      case no: False
      with False live old sw [of "p\<lparr>count_m := count_m p - 1\<rparr>" "idle_ttl_m p"]
      show ?thesis by (auto simp: put_def Let_def split: if_splits)
    qed
  qed
qed


lemma exec_stamped_until:
  assumes inv: "stamped_until t (pool_m p)" and clock: "puts_in_time t (c # cs)"
    and live: "snd (exec c p) = Live q"
  shows "\<exists>t'. stamped_until t' (pool_m q) \<and> puts_in_time t' cs"
proof (cases c)
  case (Peek now fresh ok)
  with live have "q = p_pool (peek now fresh ok p)" by (simp add: Let_def)
  with peek_stamped_until [OF inv, of now fresh ok] clock Peek show ?thesis by auto
next
  case (Put conn keep now)
  with clock have c: "0 < now" "t \<le> now" and rest: "puts_in_time now cs"
    by (simp_all split: if_splits)
  from live Put have "put conn keep now p = Live q" by simp
  from put_stamped_until [OF inv c this] rest show ?thesis by blast
next
  case (Aliving now)
  with live have "pool_m q = pool_m p" by (auto simp: aliving_def split: if_splits)
  with inv clock Aliving show ?thesis by auto
next
  case (Set_alive ok now)
  with live have "pool_m q = pool_m p" by (auto simp: set_alive_def split: if_splits)
  with inv clock Set_alive show ?thesis by auto
next
  case Set_delay_destroy
  with live have "pool_m q = pool_m p" by (auto simp: set_delay_destroy_def)
  with inv clock Set_delay_destroy show ?thesis by auto
next
  case (Set_retry_inter n)
  with live have "pool_m q = pool_m p" by (auto simp: set_retry_inter_def)
  with inv clock Set_retry_inter show ?thesis by auto
next
  case (Set_idle_ttl ttl)
  with live have "pool_m q = pool_m p" by (auto simp: set_idle_ttl_def)
  with inv clock Set_idle_ttl show ?thesis by auto
next
  case (Set_check_inter n)
  with live have "pool_m q = pool_m p" by (auto simp: set_check_inter_def)
  with inv clock Set_check_inter show ?thesis by auto
next
  case (Check_idle ttl ex now)
  with live have "q = snd (check_idle ttl ex now p)"
    by (cases "check_idle ttl ex now p") simp
  with check_idle_stamped_until [OF inv, of ttl ex now] clock Check_idle show ?thesis by auto
qed

lemma run_stamped_until:
  "stamped_until t (pool_m p) \<Longrightarrow> puts_in_time t cs \<Longrightarrow> snd (run cs p) = Live p' \<Longrightarrow>
   \<exists>t'. stamped_until t' (pool_m p')"
proof (induction cs arbitrary: p t)
  case Nil
  then show ?case by auto
next
  case (Cons c cs)
  obtain r s where ex: "exec c p = (r, s)" by (cases "exec c p")
  show ?case
  proof (cases s)
    case (Live q)
    with ex have e: "exec c p = (r, Live q)" by simp
    from run_Cons_Live [OF e, of cs] have "snd (run (c # cs) p) = snd (run cs q)"
      by (simp del: run.simps)
    with Cons.prems(3) have fin: "snd (run cs q) = Live p'" by simp
    from e have "snd (exec c p) = Live q" by simp
    from exec_stamped_until [OF Cons.prems(1,2) this]
    obtain t' where "stamped_until t' (pool_m q)" "puts_in_time t' cs" by blast
    from Cons.IH [OF this fin] show ?thesis .
  next
    case Destroyed
    with ex Cons.prems(3) show ?thesis by simp
  next
    case Aborted
    with ex Cons.prems(3) show ?thesis by simp
  qed
qed

lemma reachable_idle_list:
  assumes "puts_in_time 0 cs" and "snd (run cs (new_connect_pool mx idx)) = Live p"
  shows "stamped (pool_m p) \<and> time_ordered (pool_m p)"
proof -
  have "stamped_until 0 (pool_m (new_connect_pool mx idx))"
    by (simp add: stamped_until_def new_connect_pool_def)
  from run_stamped_until [OF this assms] obtain t where "stamped_until t (pool_m p)" by blast
  then show ?thesis
    by (auto simp: stamped_until_def stamped_def time_ordered_def list_all_iff)
qed

section \<open>Idle reaping\<close>

text \<open>
  The walk of \<^verbatim>\<open>check_idle\<close> in general: it passes the unstamped and the expired
  connections, deleting the expired ones, up to the first connection that is stamped and
  not expired.
\<close>

lemma check_idle_loop_char:
  "check_idle_loop now ttl xs =
     (filter unstamped (takeWhile (passed now ttl) xs) @ dropWhile (passed now ttl) xs,
      length (filter (\<lambda>c. \<not> unstamped c) (takeWhile (passed now ttl) xs)))"
  by (induction xs) (auto simp: passed_def unstamped_def expired_def)

lemma check_idle_loop_sorted:
  "\<forall>c \<in> set xs. 0 < when_m c \<Longrightarrow> sorted_wrt (\<lambda>a b. when_m a \<le> when_m b) xs \<Longrightarrow>
   check_idle_loop now ttl xs =
     (filter (\<lambda>c. \<not> expired now ttl c) xs, length (filter (expired now ttl) xs))"
proof (induction xs)
  case Nil
  then show ?case by simp
next
  case (Cons c cs)
  show ?case
  proof (cases "expired now ttl c")
    case True
    with Cons show ?thesis by (simp add: expired_def)
  next
    case False
    with Cons.prems have "\<forall>d \<in> set cs. \<not> expired now ttl d"
      by (auto simp: expired_def)
    then have "filter (\<lambda>c. \<not> expired now ttl c) cs = cs" "filter (expired now ttl) cs = []"
      by (simp_all add: filter_empty_conv)
    moreover from False Cons.prems have "check_idle_loop now ttl (c # cs) = (c # cs, 0)"
      by (simp add: expired_def)
    ultimately show ?thesis using False by simp
  qed
qed

lemma time_ordered_split:
  "sorted_wrt (\<lambda>a b. when_m b \<le> when_m a) xs \<Longrightarrow>
   xs = filter (\<lambda>c. \<not> expired now ttl c) xs @ filter (expired now ttl) xs"
proof (induction xs)
  case Nil
  then show ?case by simp
next
  case (Cons c cs)
  show ?case
  proof (cases "expired now ttl c")
    case False
    with Cons show ?thesis by simp
  next
    case True
    with Cons.prems have "\<forall>d \<in> set cs. expired now ttl d"
      by (auto simp: expired_def)
    then have "filter (\<lambda>c. \<not> expired now ttl c) cs = []" "filter (expired now ttl) cs = cs"
      by (simp_all add: filter_empty_conv)
    with True show ?thesis by simp
  qed
qed

text \<open>
  C6. With \<open>ttl < 0\<close>, \<^verbatim>\<open>check_idle\<close> changes nothing and returns 0. With \<open>ttl = 0\<close> it empties
  the idle list and returns the number of connections that were in it. With \<open>ttl > 0\<close>, on
  the time-ordered idle list (stamped, as every reachable idle list is), it deletes every
  connection idle for \<open>ttl\<close> or longer and no other, and returns their number; the deleted
  connections are the back end of the list and all fresher connections stay in place, in
  their order.
\<close>

theorem check_idle_cases:
  "(ttl < 0 \<longrightarrow> check_idle ttl ex now p = (0, p)) \<and>
   pool_m (snd (check_idle 0 ex now p)) = [] \<and>
   fst (check_idle 0 ex now p) = int (length (pool_m p)) \<and>
   (0 < ttl \<and> stamped (pool_m p) \<and> time_ordered (pool_m p) \<longrightarrow>
      pool_m (snd (check_idle ttl ex now p)) = filter (\<lambda>c. \<not> expired now ttl c) (pool_m p) \<and>
      fst (check_idle ttl ex now p) = int (length (filter (expired now ttl) (pool_m p))) \<and>
      pool_m p = pool_m (snd (check_idle ttl ex now p)) @ filter (expired now ttl) (pool_m p))"
proof -
  have neg: "ttl < 0 \<longrightarrow> check_idle ttl ex now p = (0, p)"
    by (simp add: check_idle_def)
  have zero: "pool_m (snd (check_idle 0 ex now p)) = []"
    "fst (check_idle 0 ex now p) = int (length (pool_m p))"
    by (simp_all add: check_idle_def)
  have ordered: "0 < ttl \<and> stamped (pool_m p) \<and> time_ordered (pool_m p) \<longrightarrow>
      pool_m (snd (check_idle ttl ex now p)) = filter (\<lambda>c. \<not> expired now ttl c) (pool_m p) \<and>
      fst (check_idle ttl ex now p) = int (length (filter (expired now ttl) (pool_m p))) \<and>
      pool_m p = pool_m (snd (check_idle ttl ex now p)) @ filter (expired now ttl) (pool_m p)"
  proof (intro impI, elim conjE)
    assume t: "0 < ttl" and st: "stamped (pool_m p)" and so: "time_ordered (pool_m p)"
    from st have st': "\<forall>c \<in> set (rev (pool_m p)). 0 < when_m c"
      by (simp add: stamped_def list_all_iff)
    from so have so': "sorted_wrt (\<lambda>a b. when_m a \<le> when_m b) (rev (pool_m p))"
      by (simp add: time_ordered_def sorted_wrt_rev)
    have len: "length (filter (expired now ttl) (rev (pool_m p)))
                 = length (filter (expired now ttl) (pool_m p))"
      by (metis length_rev rev_filter)
    from check_idle_loop_sorted [OF st' so', of now ttl] t len
    have a: "pool_m (snd (check_idle ttl ex now p)) = filter (\<lambda>c. \<not> expired now ttl c) (pool_m p)"
      and b: "fst (check_idle ttl ex now p) = int (length (filter (expired now ttl) (pool_m p)))"
      by (simp_all add: check_idle_def rev_filter)
    from so have "pool_m p = filter (\<lambda>c. \<not> expired now ttl c) (pool_m p)
                    @ filter (expired now ttl) (pool_m p)"
      unfolding time_ordered_def by (rule time_ordered_split)
    with a b
    show "pool_m (snd (check_idle ttl ex now p)) = filter (\<lambda>c. \<not> expired now ttl c) (pool_m p) \<and>
      fst (check_idle ttl ex now p) = int (length (filter (expired now ttl) (pool_m p))) \<and>
      pool_m p = pool_m (snd (check_idle ttl ex now p)) @ filter (expired now ttl) (pool_m p)"
      by simp
  qed
  from neg zero ordered show ?thesis by blast
qed

theorem check_idle_cases_witness:
  "run [Peek 10 conn1 True, Peek 11 conn2 True, Peek 12 conn3 True,
        Put conn1 True 100, Put conn2 True 200, Put conn3 True 300] (new_connect_pool 4 0)
     = ([Conn (Some conn1), Conn (Some conn2), Conn (Some conn3), Void, Void, Void],
        Live ((new_connect_pool 4 0)\<lparr>count_m := 3, total_used_m := 3, current_used_m := 3,
           pool_m := [conn3\<lparr>when_m := 300\<rparr>, conn2\<lparr>when_m := 200\<rparr>, conn1\<lparr>when_m := 100\<rparr>]\<rparr>)) \<and>
   check_idle (- 1) True 305
     ((new_connect_pool 4 0)\<lparr>count_m := 3, total_used_m := 3, current_used_m := 3,
        pool_m := [conn3\<lparr>when_m := 300\<rparr>, conn2\<lparr>when_m := 200\<rparr>, conn1\<lparr>when_m := 100\<rparr>]\<rparr>)
     = (0, (new_connect_pool 4 0)\<lparr>count_m := 3, total_used_m := 3, current_used_m := 3,
        pool_m := [conn3\<lparr>when_m := 300\<rparr>, conn2\<lparr>when_m := 200\<rparr>, conn1\<lparr>when_m := 100\<rparr>]\<rparr>) \<and>
   check_idle 10 True 305
     ((new_connect_pool 4 0)\<lparr>count_m := 3, total_used_m := 3, current_used_m := 3,
        pool_m := [conn3\<lparr>when_m := 300\<rparr>, conn2\<lparr>when_m := 200\<rparr>, conn1\<lparr>when_m := 100\<rparr>]\<rparr>)
     = (2, (new_connect_pool 4 0)\<lparr>count_m := 1, total_used_m := 3, current_used_m := 3,
        pool_m := [conn3\<lparr>when_m := 300\<rparr>]\<rparr>)"
proof -
  let ?P = "(new_connect_pool 4 0)\<lparr>count_m := 3, total_used_m := 3, current_used_m := 3,
        pool_m := [conn3\<lparr>when_m := 300\<rparr>, conn2\<lparr>when_m := 200\<rparr>, conn1\<lparr>when_m := 100\<rparr>]\<rparr>"
  have reach: "run [Peek 10 conn1 True, Peek 11 conn2 True, Peek 12 conn3 True,
        Put conn1 True 100, Put conn2 True 200, Put conn3 True 300] (new_connect_pool 4 0)
     = ([Conn (Some conn1), Conn (Some conn2), Conn (Some conn3), Void, Void, Void], Live ?P)"
    by (simp add: peek_def put_def new_connect_pool_def Let_def word_le_nat_alt)
  have neg: "(- 1 :: int) < 0" by simp
  have pos: "(0 :: int) < 10 \<and> stamped (pool_m ?P) \<and> time_ordered (pool_m ?P)"
    by (simp add: stamped_def time_ordered_def)
  from check_idle_cases [of "- 1" True 305 ?P] neg
  have a: "check_idle (- 1) True 305 ?P = (0, ?P)" by blast
  from check_idle_cases [of 10 True 305 ?P] pos
  have b: "pool_m (snd (check_idle 10 True 305 ?P))
             = filter (\<lambda>c. \<not> expired 305 10 c) (pool_m ?P)"
    and c: "fst (check_idle 10 True 305 ?P) = int (length (filter (expired 305 10) (pool_m ?P)))"
    by blast+
  from b have b': "pool_m (snd (check_idle 10 True 305 ?P)) = [conn3\<lparr>when_m := 300\<rparr>]"
    by (simp add: expired_def)
  from c have c': "fst (check_idle 10 True 305 ?P) = 2" by (simp add: expired_def)
  have rest: "snd (check_idle 10 True 305 ?P)
      = ?P\<lparr>pool_m := pool_m (snd (check_idle 10 True 305 ?P)), count_m := 1\<rparr>"
    by (simp add: check_idle_def)
  from b' c' rest have d: "check_idle 10 True 305 ?P
      = (2, ?P\<lparr>pool_m := [conn3\<lparr>when_m := 300\<rparr>], count_m := 1\<rparr>)"
    by (simp add: prod_eq_iff)
  from reach a d show ?thesis by simp
qed

section \<open>The order of reuse\<close>

text \<open>
  While the sweep of \<^verbatim>\<open>put\<close> is not due, two checkins are followed by two checkouts from
  the idle list that return the connections in the opposite order.
\<close>

lemma idle_reuse_without_sweep:
  assumes "alive_m p" and "\<not> delay_destroy_m p"
    and "\<not> (0 \<le> idle_ttl_m p \<and> check_inter_m p \<le> now1 - last_check_m p)"
    and "\<not> (0 \<le> idle_ttl_m p \<and> check_inter_m p \<le> now2 - last_check_m p)"
  shows "run [Put c1 True now1, Put c2 True now2, Peek t3 f3 ok3, Peek t4 f4 ok4] p
     = ([Void, Void, Conn (Some (c2\<lparr>when_m := now2\<rparr>)), Conn (Some (c1\<lparr>when_m := now1\<rparr>))],
        Live (p\<lparr>total_used_m := total_used_m p + 2, current_used_m := current_used_m p + 2\<rparr>))"
proof -
  let ?p1 = "p\<lparr>pool_m := c1\<lparr>when_m := now1\<rparr> # pool_m p\<rparr>"
  let ?p2 = "p\<lparr>pool_m := c2\<lparr>when_m := now2\<rparr> # c1\<lparr>when_m := now1\<rparr> # pool_m p\<rparr>"
  let ?p3 = "p\<lparr>pool_m := c1\<lparr>when_m := now1\<rparr> # pool_m p,
               total_used_m := total_used_m p + 1, current_used_m := current_used_m p + 1\<rparr>"
  let ?p4 = "p\<lparr>total_used_m := total_used_m p + 2, current_used_m := current_used_m p + 2\<rparr>"
  from assms have n1: "(0 \<le> idle_ttl_m p \<and> check_inter_m p \<le> now1 - last_check_m p) = False"
    and n2: "(0 \<le> idle_ttl_m p \<and> check_inter_m p \<le> now2 - last_check_m p) = False"
    by blast+
  from assms(1,2) have s1: "put c1 True now1 p = Live ?p1"
    by (simp add: put_def Let_def n1)
  from assms(1,2) have s2: "put c2 True now2 ?p1 = Live ?p2"
    by (simp add: put_def Let_def n2)
  from assms have s3: "peek t3 f3 ok3 ?p2
      = \<lparr> p_ret = Some (c2\<lparr>when_m := now2\<rparr>), p_site = Ret_idle, p_trace = [Lock, Unlock],
          p_pool = ?p3 \<rparr>"
    by (simp add: peek_def Let_def)
  from assms have s4: "peek t4 f4 ok4 ?p3
      = \<lparr> p_ret = Some (c1\<lparr>when_m := now1\<rparr>), p_site = Ret_idle, p_trace = [Lock, Unlock],
          p_pool = ?p4 \<rparr>"
    by (simp add: peek_def Let_def)
  from s1 s2 s3 s4 show ?thesis by (simp add: Let_def)
qed

text \<open>
  When the sweep runs, the connection just put at the front is never old enough to be
  deleted by a positive TTL, and a connection behind it is deleted only after everything
  behind that one has been passed.
\<close>

lemma check_idle_loop_front_kept:
  "\<not> (0 < when_m c \<and> ttl \<le> now - when_m c) \<Longrightarrow>
   check_idle_loop now ttl (xs @ [c])
     = (fst (check_idle_loop now ttl xs) @ [c], snd (check_idle_loop now ttl xs))"
  by (induction xs) (auto split: prod.splits)

lemma check_idle_loop_front_or_none:
  "list_all (\<lambda>c. 0 < when_m c) xs \<Longrightarrow>
   (\<exists>kept. fst (check_idle_loop now ttl (xs @ [c])) = kept @ [c]) \<or>
   fst (check_idle_loop now ttl (xs @ [c])) = []"
proof (induction xs)
  case Nil
  show ?case by simp
next
  case (Cons x xs)
  then have x: "0 < when_m x" and IH: "(\<exists>kept. fst (check_idle_loop now ttl (xs @ [c])) = kept @ [c]) \<or>
   fst (check_idle_loop now ttl (xs @ [c])) = []"
    by simp_all
  show ?case
  proof (cases "now - when_m x < ttl")
    case True
    with x have "fst (check_idle_loop now ttl ((x # xs) @ [c])) = (x # xs) @ [c]" by simp
    then show ?thesis by blast
  next
    case False
    with x have "fst (check_idle_loop now ttl ((x # xs) @ [c])) = fst (check_idle_loop now ttl (xs @ [c]))"
      by (simp split: prod.splits)
    with IH show ?thesis by simp
  qed
qed

lemma sweep_front:
  assumes front: "pool_m r = c # rest" and fresh: "\<not> (0 < when_m c \<and> ttl \<le> now - when_m c)"
    and ttl: "0 \<le> ttl"
  shows "pool_m (snd (check_idle ttl ex now r))
           = (if ttl = 0 then [] else c # rev (fst (check_idle_loop now ttl (rev rest))))"
  using assms check_idle_loop_front_kept [OF fresh, of "rev rest"]
  by (simp add: check_idle_def split: prod.splits)

lemma check_idle_keeps_flags:
  "alive_m (snd (check_idle ttl ex now r)) = alive_m r \<and>
   delay_destroy_m (snd (check_idle ttl ex now r)) = delay_destroy_m r"
  by (simp add: check_idle_def split: prod.split)

lemma put_keep_front:
  assumes "alive_m p" "\<not> delay_destroy_m p"
  shows "\<exists>q. put c True now p = Live q \<and> alive_m q \<and> \<not> delay_destroy_m q \<and>
           (pool_m q = [] \<or>
            pool_m q = c\<lparr>when_m := now\<rparr> # pool_m p \<or>
            (0 < idle_ttl_m p \<and>
             pool_m q = c\<lparr>when_m := now\<rparr>
                        # rev (fst (check_idle_loop now (idle_ttl_m p) (rev (pool_m p))))))"
proof -
  let ?c = "c\<lparr>when_m := now\<rparr>"
  let ?p1 = "p\<lparr>pool_m := ?c # pool_m p\<rparr>"
  show ?thesis
  proof (cases "0 \<le> idle_ttl_m p \<and> check_inter_m p \<le> now - last_check_m p")
    case False
    then have nf: "(0 \<le> idle_ttl_m p \<and> check_inter_m p \<le> now - last_check_m p) = False"
      by blast
    from assms have "put c True now p = Live ?p1" by (simp add: put_def Let_def nf)
    with assms show ?thesis by simp
  next
    case True
    let ?q = "(snd (check_idle (idle_ttl_m p) False now ?p1))\<lparr>last_check_m := now\<rparr>"
    from True have yes: "(0 \<le> idle_ttl_m p \<and> check_inter_m p \<le> now - last_check_m p) = True"
      by blast
    from assms have res: "put c True now p = Live ?q" by (simp add: put_def Let_def yes)
    have fresh: "idle_ttl_m p \<noteq> 0 \<Longrightarrow> \<not> (0 < when_m ?c \<and> idle_ttl_m p \<le> now - when_m ?c)"
      using True by simp
    have shape: "pool_m ?q = (if idle_ttl_m p = 0 then []
        else ?c # rev (fst (check_idle_loop now (idle_ttl_m p) (rev (pool_m p)))))"
    proof (cases "idle_ttl_m p = 0")
      case z: True
      then show ?thesis by (simp add: check_idle_def)
    next
      case nz: False
      from sweep_front [of ?p1 ?c "pool_m p" "idle_ttl_m p" now False] fresh [OF nz] True nz
      show ?thesis by simp
    qed
    from check_idle_keeps_flags [of "idle_ttl_m p" False now ?p1] assms
    have fl: "alive_m ?q" "\<not> delay_destroy_m ?q" by simp_all
    from True shape have "pool_m ?q = [] \<or> (0 < idle_ttl_m p \<and>
             pool_m ?q = ?c # rev (fst (check_idle_loop now (idle_ttl_m p) (rev (pool_m p)))))"
      by (cases "idle_ttl_m p = 0") auto
    with res fl show ?thesis by blast
  qed
qed


lemma put_keep_first:
  assumes "alive_m p" "\<not> delay_destroy_m p" "stamped (pool_m p)"
  shows "\<exists>q. put c True now p = Live q \<and> alive_m q \<and> \<not> delay_destroy_m q \<and>
           (pool_m q = [] \<or> (\<exists>rest. pool_m q = c\<lparr>when_m := now\<rparr> # rest \<and> stamped rest))"
proof -
  from put_keep_front [OF assms(1,2), of c now]
  obtain q where q: "put c True now p = Live q" "alive_m q" "\<not> delay_destroy_m q"
    and shape: "pool_m q = [] \<or>
            pool_m q = c\<lparr>when_m := now\<rparr> # pool_m p \<or>
            (0 < idle_ttl_m p \<and>
             pool_m q = c\<lparr>when_m := now\<rparr>
                        # rev (fst (check_idle_loop now (idle_ttl_m p) (rev (pool_m p)))))"
    by blast
  obtain kept n where loop: "check_idle_loop now (idle_ttl_m p) (rev (pool_m p)) = (kept, n)"
    by (cases "check_idle_loop now (idle_ttl_m p) (rev (pool_m p))")
  from check_idle_loop_sub [OF loop, of "\<lambda>a b. True"] have "set kept \<subseteq> set (pool_m p)" by simp
  with assms(3) have "stamped (rev kept)" by (auto simp: stamped_def list_all_iff)
  with loop have "stamped (rev (fst (check_idle_loop now (idle_ttl_m p) (rev (pool_m p)))))"
    by simp
  with shape assms(3)
  have "pool_m q = [] \<or> (\<exists>rest. pool_m q = c\<lparr>when_m := now\<rparr> # rest \<and> stamped rest)"
    by blast
  with q show ?thesis by blast
qed

lemma put_keep_second:
  assumes "alive_m q1" "\<not> delay_destroy_m q1"
    and first: "pool_m q1 = [] \<or> (\<exists>rest. pool_m q1 = c1 # rest \<and> stamped rest)"
  shows "\<exists>q. put c2 True now q1 = Live q \<and> alive_m q \<and>
           (pool_m q = [] \<or> pool_m q = [c2\<lparr>when_m := now\<rparr>] \<or>
            (\<exists>rest. pool_m q = c2\<lparr>when_m := now\<rparr> # c1 # rest))"
proof -
  let ?c2 = "c2\<lparr>when_m := now\<rparr>"
  let ?loop = "fst (check_idle_loop now (idle_ttl_m q1) (rev (pool_m q1)))"
  from put_keep_front [OF assms(1,2), of c2 now]
  obtain q where q: "put c2 True now q1 = Live q" "alive_m q"
    and shape: "pool_m q = [] \<or> pool_m q = ?c2 # pool_m q1 \<or> pool_m q = ?c2 # rev ?loop"
    by blast
  have swept: "rev ?loop = [] \<or> (\<exists>rest. rev ?loop = c1 # rest)"
  proof (cases "pool_m q1")
    case Nil
    then show ?thesis by simp
  next
    case (Cons x rest)
    with first have x: "x = c1" and st: "stamped rest" by simp_all
    from st have "list_all (\<lambda>c. 0 < when_m c) (rev rest)" by (simp add: stamped_def)
    from check_idle_loop_front_or_none [OF this, of now "idle_ttl_m q1" c1] Cons x
    have "(\<exists>kept. ?loop = kept @ [c1]) \<or> ?loop = []" by simp
    then show ?thesis
    proof
      assume "\<exists>kept. ?loop = kept @ [c1]"
      then obtain kept where "?loop = kept @ [c1]" by blast
      then have "rev ?loop = c1 # rev kept" by simp
      then show ?thesis by blast
    next
      assume "?loop = []"
      then show ?thesis by simp
    qed
  qed
  from first have kept: "pool_m q1 = [] \<or> (\<exists>rest. pool_m q1 = c1 # rest)" by blast
  from shape swept kept
  have "pool_m q = [] \<or> pool_m q = [?c2] \<or> (\<exists>rest. pool_m q = ?c2 # c1 # rest)"
    by auto
  with q show ?thesis by blast
qed

lemma peek_alive_idle:
  assumes "alive_m q"
  shows "(pool_m q = [] \<longrightarrow> p_site (peek now fresh ok q) \<noteq> Ret_idle \<and>
            pool_m (p_pool (peek now fresh ok q)) = []) \<and>
         (\<forall>x rest. pool_m q = x # rest \<longrightarrow>
            p_site (peek now fresh ok q) = Ret_idle \<and> p_ret (peek now fresh ok q) = Some x \<and>
            pool_m (p_pool (peek now fresh ok q)) = rest \<and> alive_m (p_pool (peek now fresh ok q)))"
  using assms by (simp add: peek_def Let_def)

text \<open>
  C7 (as the code has it). On a pool that is alive and not pending destruction (its idle
  list stamped, as every reachable idle list is), the checkin of \<open>c1\<close> followed by the
  checkin of \<open>c2\<close>, both to be kept, leaves an idle list that is empty, or holds \<open>c2\<close>
  alone, or begins with \<open>c2\<close> and then \<open>c1\<close>, whatever the sweep of \<^verbatim>\<open>put\<close> does. So of the
  next two checkouts, the first, when it draws from the idle list, returns \<open>c2\<close>, and the
  second, when both draw from the idle list, returns \<open>c1\<close>, each with the time stamp of its
  checkin.
\<close>

theorem idle_reuse_lifo:
  assumes "alive_m p" and "\<not> delay_destroy_m p" and "stamped (pool_m p)"
  shows "\<exists>p1 p2.
     put c1 True now1 p = Live p1 \<and> put c2 True now2 p1 = Live p2 \<and>
     (pool_m p2 = [] \<or> pool_m p2 = [c2\<lparr>when_m := now2\<rparr>] \<or>
      (\<exists>rest. pool_m p2 = c2\<lparr>when_m := now2\<rparr> # c1\<lparr>when_m := now1\<rparr> # rest)) \<and>
     (p_site (peek t3 f3 ok3 p2) = Ret_idle \<longrightarrow>
        p_ret (peek t3 f3 ok3 p2) = Some (c2\<lparr>when_m := now2\<rparr>)) \<and>
     (p_site (peek t3 f3 ok3 p2) = Ret_idle \<and>
      p_site (peek t4 f4 ok4 (p_pool (peek t3 f3 ok3 p2))) = Ret_idle \<longrightarrow>
        p_ret (peek t4 f4 ok4 (p_pool (peek t3 f3 ok3 p2))) = Some (c1\<lparr>when_m := now1\<rparr>))"
proof -
  let ?c1 = "c1\<lparr>when_m := now1\<rparr>" and ?c2 = "c2\<lparr>when_m := now2\<rparr>"
  from put_keep_first [OF assms, of c1 now1]
  obtain p1 where p1: "put c1 True now1 p = Live p1" "alive_m p1" "\<not> delay_destroy_m p1"
    and s1: "pool_m p1 = [] \<or> (\<exists>rest. pool_m p1 = ?c1 # rest \<and> stamped rest)"
    by blast
  from put_keep_second [OF p1(2,3) s1, of c2 now2]
  obtain p2 where p2: "put c2 True now2 p1 = Live p2" "alive_m p2"
    and s2: "pool_m p2 = [] \<or> pool_m p2 = [?c2] \<or> (\<exists>rest. pool_m p2 = ?c2 # ?c1 # rest)"
    by blast
  let ?r3 = "peek t3 f3 ok3 p2"
  let ?r4 = "peek t4 f4 ok4 (p_pool ?r3)"
  note k3 = peek_alive_idle [OF p2(2), of t3 f3 ok3]
  have third: "p_site ?r3 = Ret_idle \<longrightarrow> p_ret ?r3 = Some ?c2"
    using s2 k3 by auto
  have fourth: "p_site ?r3 = Ret_idle \<and> p_site ?r4 = Ret_idle \<longrightarrow> p_ret ?r4 = Some ?c1"
  proof (intro impI, elim conjE)
    assume a3: "p_site ?r3 = Ret_idle" and a4: "p_site ?r4 = Ret_idle"
    from a3 k3 s2 have two: "pool_m p2 = [?c2] \<or> (\<exists>rest. pool_m p2 = ?c2 # ?c1 # rest)"
      by auto
    then have al: "alive_m (p_pool ?r3)" using k3 by auto
    note k4 = peek_alive_idle [OF al, of t4 f4 ok4]
    from two k3 have "pool_m (p_pool ?r3) = [] \<or> (\<exists>rest. pool_m (p_pool ?r3) = ?c1 # rest)"
      by auto
    with a4 k4 show "p_ret ?r4 = Some ?c1" by auto
  qed
  from p1(1) p2(1) s2 third fourth show ?thesis by blast
qed

theorem idle_reuse_lifo_witness:
  "run [Set_idle_ttl 5, Set_check_inter 1, Peek 10 conn1 True, Peek 11 conn2 True]
       (new_connect_pool 2 0)
     = ([Void, Void, Conn (Some conn1), Conn (Some conn2)],
        Live ((new_connect_pool 2 0)\<lparr>count_m := 2, idle_ttl_m := 5, check_inter_m := 1,
                total_used_m := 2, current_used_m := 2\<rparr>)) \<and>
   put conn1 True 100
       ((new_connect_pool 2 0)\<lparr>count_m := 2, idle_ttl_m := 5, check_inter_m := 1,
                total_used_m := 2, current_used_m := 2\<rparr>)
     = Live ((new_connect_pool 2 0)\<lparr>count_m := 2, idle_ttl_m := 5, last_check_m := 100,
                check_inter_m := 1, total_used_m := 2, current_used_m := 2,
                pool_m := [conn1\<lparr>when_m := 100\<rparr>]\<rparr>) \<and>
   put conn2 True 102
       ((new_connect_pool 2 0)\<lparr>count_m := 2, idle_ttl_m := 5, last_check_m := 100,
                check_inter_m := 1, total_used_m := 2, current_used_m := 2,
                pool_m := [conn1\<lparr>when_m := 100\<rparr>]\<rparr>)
     = Live ((new_connect_pool 2 0)\<lparr>count_m := 2, idle_ttl_m := 5, last_check_m := 102,
                check_inter_m := 1, total_used_m := 2, current_used_m := 2,
                pool_m := [conn2\<lparr>when_m := 102\<rparr>, conn1\<lparr>when_m := 100\<rparr>]\<rparr>) \<and>
   p_site (peek 103 conn3 True
       ((new_connect_pool 2 0)\<lparr>count_m := 2, idle_ttl_m := 5, last_check_m := 102,
                check_inter_m := 1, total_used_m := 2, current_used_m := 2,
                pool_m := [conn2\<lparr>when_m := 102\<rparr>, conn1\<lparr>when_m := 100\<rparr>]\<rparr>)) = Ret_idle \<and>
   p_ret (peek 103 conn3 True
       ((new_connect_pool 2 0)\<lparr>count_m := 2, idle_ttl_m := 5, last_check_m := 102,
                check_inter_m := 1, total_used_m := 2, current_used_m := 2,
                pool_m := [conn2\<lparr>when_m := 102\<rparr>, conn1\<lparr>when_m := 100\<rparr>]\<rparr>))
     = Some (conn2\<lparr>when_m := 102\<rparr>) \<and>
   p_site (peek 104 conn4 True (p_pool (peek 103 conn3 True
       ((new_connect_pool 2 0)\<lparr>count_m := 2, idle_ttl_m := 5, last_check_m := 102,
                check_inter_m := 1, total_used_m := 2, current_used_m := 2,
                pool_m := [conn2\<lparr>when_m := 102\<rparr>, conn1\<lparr>when_m := 100\<rparr>]\<rparr>)))) = Ret_idle \<and>
   p_ret (peek 104 conn4 True (p_pool (peek 103 conn3 True
       ((new_connect_pool 2 0)\<lparr>count_m := 2, idle_ttl_m := 5, last_check_m := 102,
                check_inter_m := 1, total_used_m := 2, current_used_m := 2,
                pool_m := [conn2\<lparr>when_m := 102\<rparr>, conn1\<lparr>when_m := 100\<rparr>]\<rparr>))))
     = Some (conn1\<lparr>when_m := 100\<rparr>)"
proof -
  let ?P = "(new_connect_pool 2 0)\<lparr>count_m := 2, idle_ttl_m := 5, check_inter_m := 1,
                total_used_m := 2, current_used_m := 2\<rparr>"
  have h1: "alive_m ?P" and h2: "\<not> delay_destroy_m ?P" and h3: "stamped (pool_m ?P)"
    by (simp_all add: new_connect_pool_def stamped_def)
  from idle_reuse_lifo [OF h1 h2 h3, of conn1 100 conn2 102 103 conn3 True 104 conn4 True]
  show ?thesis
    by (simp add: peek_def put_def check_idle_def set_idle_ttl_def set_check_inter_def
          new_connect_pool_def Let_def word_le_nat_alt)
qed

text \<open>
  The claim of C7 as stated fails on an alive pool that is pending destruction. With
  \<open>conn3\<close> and \<open>conn4\<close> idle and the flag set, the checkins of \<open>conn1\<close> and \<open>conn2\<close> delete
  both connections, and the next two checkouts draw from the idle list and return \<open>conn4\<close>
  and \<open>conn3\<close>.
\<close>

theorem idle_reuse_broken_by_drain:
  "run [Peek 10 conn1 True, Peek 11 conn2 True, Peek 12 conn3 True, Peek 13 conn4 True,
        Put conn3 True 20, Put conn4 True 21, Set_delay_destroy,
        Put conn1 True 30, Put conn2 True 31] (new_connect_pool 4 0)
     = ([Conn (Some conn1), Conn (Some conn2), Conn (Some conn3), Conn (Some conn4),
         Void, Void, Void, Void, Void],
        Live ((new_connect_pool 4 0)\<lparr>delay_destroy_m := True, count_m := 2,
                total_used_m := 4, current_used_m := 4,
                pool_m := [conn4\<lparr>when_m := 21\<rparr>, conn3\<lparr>when_m := 20\<rparr>]\<rparr>)) \<and>
   alive_m ((new_connect_pool 4 0)\<lparr>delay_destroy_m := True, count_m := 2,
                total_used_m := 4, current_used_m := 4,
                pool_m := [conn4\<lparr>when_m := 21\<rparr>, conn3\<lparr>when_m := 20\<rparr>]\<rparr>) \<and>
   p_site (peek 40 conn1 True
       ((new_connect_pool 4 0)\<lparr>delay_destroy_m := True, count_m := 2,
                total_used_m := 4, current_used_m := 4,
                pool_m := [conn4\<lparr>when_m := 21\<rparr>, conn3\<lparr>when_m := 20\<rparr>]\<rparr>)) = Ret_idle \<and>
   p_ret (peek 40 conn1 True
       ((new_connect_pool 4 0)\<lparr>delay_destroy_m := True, count_m := 2,
                total_used_m := 4, current_used_m := 4,
                pool_m := [conn4\<lparr>when_m := 21\<rparr>, conn3\<lparr>when_m := 20\<rparr>]\<rparr>))
     = Some (conn4\<lparr>when_m := 21\<rparr>) \<and>
   p_site (peek 41 conn2 True (p_pool (peek 40 conn1 True
       ((new_connect_pool 4 0)\<lparr>delay_destroy_m := True, count_m := 2,
                total_used_m := 4, current_used_m := 4,
                pool_m := [conn4\<lparr>when_m := 21\<rparr>, conn3\<lparr>when_m := 20\<rparr>]\<rparr>)))) = Ret_idle \<and>
   p_ret (peek 41 conn2 True (p_pool (peek 40 conn1 True
       ((new_connect_pool 4 0)\<lparr>delay_destroy_m := True, count_m := 2,
                total_used_m := 4, current_used_m := 4,
                pool_m := [conn4\<lparr>when_m := 21\<rparr>, conn3\<lparr>when_m := 20\<rparr>]\<rparr>))))
     = Some (conn3\<lparr>when_m := 20\<rparr>)"
  by (simp add: peek_def put_def set_delay_destroy_def new_connect_pool_def Let_def
        word_le_nat_alt)

section \<open>Deferred destruction\<close>








text \<open>
  With a connection idle when the flag is set, \<^verbatim>\<open>count_\<close> stands one higher than the number
  of connections checked out: here the checkin of the only outstanding connection leaves
  \<^verbatim>\<open>count_\<close> at 1 and the pool in place, with \<open>conn1\<close> in its idle list.
\<close>

lemma drain_with_idle_connection:
  "run [Peek 10 conn1 True, Peek 11 conn2 True, Put conn1 True 20, Set_delay_destroy,
        Put conn2 True 30] (new_connect_pool 2 0)
     = ([Conn (Some conn1), Conn (Some conn2), Void, Void, Void],
        Live ((new_connect_pool 2 0)\<lparr>delay_destroy_m := True, count_m := 1,
                total_used_m := 2, current_used_m := 2,
                pool_m := [conn1\<lparr>when_m := 20\<rparr>]\<rparr>))"
  by (simp add: peek_def put_def set_delay_destroy_def new_connect_pool_def Let_def
        word_le_nat_alt)

section \<open>The sweep with an idle TTL of 0\<close>

text \<open>
  Away from the zero sweep the count is right. For a disciplined caller of a pool of
  positive capacity, a run without zero sweeps keeps the pool counted: the program is never
  stopped by the assertion of \<^verbatim>\<open>put\<close>, and the connections held by the caller and the idle
  ones together never exceed the capacity.
\<close>

lemma check_idle_loop_length:
  "check_idle_loop now ttl xs = (kept, n) \<Longrightarrow> length kept + n = length xs"
  by (induction xs arbitrary: kept n) (auto split: if_splits prod.splits)

lemma unat_minus_of_nat:
  fixes x :: size_t
  assumes "n \<le> unat x"
  shows "unat (x - of_nat n) = unat x - n"
proof -
  from assms have n: "unat (of_nat n :: size_t) = n" by (rule le_unat_uoi)
  with assms have "(of_nat n :: size_t) \<le> x" by (simp add: word_le_nat_alt)
  then have "unat (x - of_nat n) = unat x - unat (of_nat n :: size_t)" by (rule unat_sub)
  with n show ?thesis by simp
qed

lemma unat_plus_one:
  fixes x :: size_t
  assumes "x < y"
  shows "unat (x + 1) = unat x + 1" and "x + 1 \<le> y"
proof -
  from assms have "unat x < unat y" by (simp add: word_less_nat_alt)
  moreover have "unat y < 2 ^ 64" using unsigned_less [of y, where ?'a = nat] by simp
  ultimately have "unat x + unat (1 :: size_t) < 2 ^ LENGTH(64)" by simp
  then have "unat (x + 1) = unat x + unat (1 :: size_t)" by (simp only: unat_add_lem)
  then show a: "unat (x + 1) = unat x + 1" by simp
  from a \<open>unat x < unat y\<close> show "x + 1 \<le> y" by (simp add: word_le_nat_alt)
qed

lemma check_idle_counted:
  assumes "ttl \<noteq> 0" and "unat (count_m p) = length (pool_m p) + h"
  shows "unat (count_m (snd (check_idle ttl ex now p)))
           = length (pool_m (snd (check_idle ttl ex now p))) + h \<and>
         count_m (snd (check_idle ttl ex now p)) \<le> count_m p \<and>
         max_m (snd (check_idle ttl ex now p)) = max_m p \<and>
         idle_ttl_m (snd (check_idle ttl ex now p)) = idle_ttl_m p"
proof (cases "ttl < 0 \<or> pool_m p = []")
  case True
  with assms show ?thesis by (auto simp: check_idle_def)
next
  case False
  obtain kept n where loop: "check_idle_loop now ttl (rev (pool_m p)) = (kept, n)"
    by (cases "check_idle_loop now ttl (rev (pool_m p))")
  from check_idle_loop_length [OF loop] have len: "length kept + n = length (pool_m p)"
    by simp
  with assms(2) have le: "n \<le> unat (count_m p)" by simp
  from unat_minus_of_nat [OF le] have sub: "unat (count_m p - of_nat n) = unat (count_m p) - n" .
  from False assms(1) loop
  have res: "snd (check_idle ttl ex now p)
               = p\<lparr>pool_m := rev kept, count_m := count_m p - of_nat n\<rparr>"
    by (simp add: check_idle_def)
  from sub len assms(2) have "unat (count_m p - of_nat n) = length kept + h" by simp
  moreover from sub have "count_m p - of_nat n \<le> count_m p" by (simp add: word_le_nat_alt)
  ultimately show ?thesis by (simp add: res)
qed

lemma sweep_counted:
  assumes "counted p1 h"
  shows "counted ((snd (check_idle (idle_ttl_m p1) False now p1))\<lparr>last_check_m := now\<rparr>) h"
proof -
  from assms have ttl: "idle_ttl_m p1 \<noteq> 0"
    and cnt: "unat (count_m p1) = length (pool_m p1) + h"
    and mx: "0 < max_m p1" "count_m p1 \<le> max_m p1"
    by (simp_all add: counted_def)
  from check_idle_counted [OF ttl cnt, of False now] mx ttl
  have "counted (snd (check_idle (idle_ttl_m p1) False now p1)) h"
    by (auto simp: counted_def)
  then show ?thesis by (simp add: counted_def)
qed

lemma put_counted:
  assumes "counted p (Suc h)"
  shows "case put conn keep now p of Live p' \<Rightarrow> counted p' h | Destroyed \<Rightarrow> True | Aborted \<Rightarrow> False"
proof -
  from assms have cnt: "unat (count_m p) = length (pool_m p) + Suc h"
    and mx: "0 < max_m p" "count_m p \<le> max_m p" and ttl: "idle_ttl_m p \<noteq> 0"
    by (simp_all add: counted_def)
  from cnt have ne0: "count_m p \<noteq> 0" by auto
  then have pos: "0 < count_m p" by (simp add: word_greater_zero_iff)
  from ne0 cnt have dec: "unat (count_m p - 1) = length (pool_m p) + h"
    by (simp add: unat_minus_one)
  from ne0 have "unat (count_m p - 1) \<le> unat (count_m p)" by (simp add: unat_minus_one)
  with mx have decle: "count_m p - 1 \<le> max_m p" by (simp add: word_le_nat_alt)
  from dec decle mx ttl have less: "counted (p\<lparr>count_m := count_m p - 1\<rparr>) h"
    by (simp add: counted_def)
  from cnt mx ttl have more: "counted (p\<lparr>pool_m := conn\<lparr>when_m := now\<rparr> # pool_m p\<rparr>) h"
    by (simp add: counted_def)
  show ?thesis
  proof (cases "delay_destroy_m p")
    case True
    with less show ?thesis by (simp add: put_def Let_def)
  next
    case False
    show ?thesis
    proof (cases "keep \<and> alive_m p")
      case True
      with False sweep_counted [OF more, of now] more show ?thesis
        by (auto simp: put_def Let_def)
    next
      case no: False
      with False pos sweep_counted [OF less, of now] less show ?thesis
        by (auto simp: put_def Let_def)
    qed
  qed
qed

lemma peek_counted:
  assumes "counted p h"
  shows "counted (p_pool (peek now fresh ok p))
           (case p_ret (peek now fresh ok p) of None \<Rightarrow> h | Some c \<Rightarrow> Suc h)"
proof -
  from assms have cnt: "unat (count_m p) = length (pool_m p) + h"
    and mx: "0 < max_m p" "count_m p \<le> max_m p" and ttl: "idle_ttl_m p \<noteq> 0"
    by (simp_all add: counted_def)
  show ?thesis
  proof (cases "p_site (peek now fresh ok p) = Ret_new")
    case False
    with cnt mx ttl show ?thesis
      by (auto simp: peek_def Let_def counted_def split: list.splits if_splits)
  next
    case True
    then have room: "count_m p < max_m p" and empty: "pool_m p = []"
      using mx by (auto simp: peek_def Let_def split: list.splits if_splits)
    from unat_plus_one [OF room] cnt empty
    have "unat (count_m p + 1) = length (pool_m p) + Suc h" "count_m p + 1 \<le> max_m p"
      by simp_all
    with True mx ttl show ?thesis
      by (auto simp: peek_def Let_def counted_def split: list.splits if_splits)
  qed
qed


lemma checked_out_Cons:
  "checked_out (c # cs) (r # rs) held = checked_out cs rs (checked_out [c] [r] held)"
  by (cases "(c # cs, r # rs, held)" rule: checked_out.cases) auto

lemma disciplined_Cons:
  "disciplined (c # cs) (r # rs) held =
     (disciplined [c] [r] held \<and> disciplined cs rs (checked_out [c] [r] held))"
  by (cases "(c # cs, r # rs, held)" rule: disciplined.cases) auto

lemma length_remove1_held:
  "x \<in> set held \<Longrightarrow> length held = Suc (length (remove1 x held))"
  by (simp add: length_remove1) (metis Suc_pred length_pos_if_in_set)

lemma exec_counted:
  assumes inv: "counted p (length held)" and nz: "\<not> zero_sweep c"
    and disc: "disciplined [c] [fst (exec c p)] held"
  shows "case snd (exec c p) of
           Live p' \<Rightarrow> counted p' (length (checked_out [c] [fst (exec c p)] held))
         | Destroyed \<Rightarrow> True | Aborted \<Rightarrow> False"
proof (cases c)
  case (Peek now fresh ok)
  from peek_counted [OF inv, of now fresh ok] Peek show ?thesis
    by (cases "p_ret (peek now fresh ok p)") (simp_all add: Let_def)
next
  case (Put conn keep now)
  with disc have mem: "cid conn \<in> set held" by (simp split: if_splits)
  from length_remove1_held [OF mem] inv
  have "counted p (Suc (length (remove1 (cid conn) held)))" by simp
  from put_counted [OF this, of conn keep now] Put show ?thesis
    by (cases "put conn keep now p") simp_all
next
  case (Aliving now)
  with inv show ?thesis by (simp add: aliving_def counted_def)
next
  case (Set_alive ok now)
  with inv show ?thesis by (simp add: set_alive_def counted_def)
next
  case Set_delay_destroy
  with inv show ?thesis by (simp add: set_delay_destroy_def counted_def)
next
  case (Set_retry_inter n)
  with inv show ?thesis by (simp add: set_retry_inter_def counted_def)
next
  case (Set_idle_ttl ttl)
  with inv nz show ?thesis by (simp add: set_idle_ttl_def counted_def)
next
  case (Set_check_inter n)
  with inv show ?thesis by (simp add: set_check_inter_def counted_def)
next
  case (Check_idle ttl ex now)
  with nz have ttl: "ttl \<noteq> 0" by simp
  from inv have cnt: "unat (count_m p) = length (pool_m p) + length held"
    and mx: "0 < max_m p" "count_m p \<le> max_m p" and it: "idle_ttl_m p \<noteq> 0"
    by (simp_all add: counted_def)
  from check_idle_counted [OF ttl cnt, of ex now] mx it
  have "counted (snd (check_idle ttl ex now p)) (length held)"
    by (auto simp: counted_def)
  with Check_idle show ?thesis
    by (cases "check_idle ttl ex now p") simp
qed

lemma run_counted:
  "counted p (length held) \<Longrightarrow> \<forall>c \<in> set cs. \<not> zero_sweep c \<Longrightarrow>
   disciplined cs (fst (run cs p)) held \<Longrightarrow>
   (case snd (run cs p) of
      Live p' \<Rightarrow> counted p' (length (checked_out cs (fst (run cs p)) held))
    | Destroyed \<Rightarrow> True | Aborted \<Rightarrow> False)"
proof (induction cs arbitrary: p held)
  case Nil
  then show ?case by simp
next
  case (Cons c cs)
  obtain r s where ex: "exec c p = (r, s)" by (cases "exec c p")
  from Cons.prems(2) have nz: "\<not> zero_sweep c" and rest: "\<forall>c \<in> set cs. \<not> zero_sweep c"
    by simp_all
  show ?case
  proof (cases s)
    case (Live p')
    with ex have "exec c p = (r, Live p')" by simp
    then have unf: "run (c # cs) p = (r # fst (run cs p'), snd (run cs p'))"
      by (rule run_Cons_Live)
    then have f: "fst (run (c # cs) p) = r # fst (run cs p')"
      and sn: "snd (run (c # cs) p) = snd (run cs p')"
      by (simp_all del: run.simps)
    from Cons.prems(3) have "disciplined (c # cs) (r # fst (run cs p')) held"
      unfolding f .
    then have d1: "disciplined [c] [r] held"
      and d2: "disciplined cs (fst (run cs p')) (checked_out [c] [r] held)"
      using disciplined_Cons [of c cs r "fst (run cs p')" held] by blast+
    from exec_counted [OF Cons.prems(1) nz] d1 ex Live
    have "counted p' (length (checked_out [c] [r] held))" by simp
    from Cons.IH [OF this rest d2] show ?thesis
      unfolding f sn checked_out_Cons [of c cs r "fst (run cs p')" held] .
  next
    case Destroyed
    with ex show ?thesis by simp
  next
    case Aborted
    with Cons.prems(3) ex have "disciplined (c # cs) [r] held" by simp
    with disciplined_Cons [of c cs r "[]" held] have "disciplined [c] [r] held" by blast
    with exec_counted [OF Cons.prems(1) nz] ex Aborted show ?thesis by simp
  qed
qed


lemma exec_max:
  "snd (exec c p) = Live p' \<Longrightarrow> max_m p' = max_m p"
proof (cases c)
  case (Put conn keep now)
  have "max_m (snd (check_idle ttl ex now q)) = max_m q" for ttl ex q
    by (simp add: check_idle_def split: prod.split)
  then have "put conn keep now p = Live p' \<Longrightarrow> max_m p' = max_m p"
    by (auto simp: put_def Let_def split: if_splits)
  with Put show "snd (exec c p) = Live p' \<Longrightarrow> max_m p' = max_m p" by simp
qed (auto simp: peek_def aliving_def set_alive_def set_delay_destroy_def set_retry_inter_def
       set_idle_ttl_def set_check_inter_def check_idle_def Let_def
       split: list.splits if_splits prod.splits)

lemma run_max:
  "snd (run cs p) = Live p' \<Longrightarrow> max_m p' = max_m p"
proof (induction cs arbitrary: p)
  case Nil
  then show ?case by simp
next
  case (Cons c cs)
  obtain r s where ex: "exec c p = (r, s)" by (cases "exec c p")
  show ?case
  proof (cases s)
    case (Live q)
    with ex have e: "exec c p = (r, Live q)" by simp
    then have "snd (run (c # cs) p) = snd (run cs q)"
      using run_Cons_Live [OF e, of cs] by (simp del: run.simps)
    with Cons.prems have "snd (run cs q) = Live p'" by simp
    from Cons.IH [OF this] exec_max [of c p q] e show ?thesis by simp
  next
    case Destroyed
    with ex Cons.prems show ?thesis by simp
  next
    case Aborted
    with ex Cons.prems show ?thesis by simp
  qed
qed

lemma capacity_kept_without_zero_sweep:
  assumes cap: "0 < mx" and nz: "\<forall>c \<in> set cs. \<not> zero_sweep c"
    and disc: "disciplined cs (fst (run cs (new_connect_pool mx idx))) []"
  shows "snd (run cs (new_connect_pool mx idx)) \<noteq> Aborted"
    and "snd (run cs (new_connect_pool mx idx)) = Live p' \<Longrightarrow>
         length (checked_out cs (fst (run cs (new_connect_pool mx idx))) []) + length (pool_m p')
           \<le> unat mx"
proof -
  from cap have "counted (new_connect_pool mx idx) (length ([] :: nat list))"
    by (simp add: counted_def new_connect_pool_def)
  from run_counted [OF this nz disc]
  have inv: "case snd (run cs (new_connect_pool mx idx)) of
      Live p' \<Rightarrow> counted p' (length (checked_out cs (fst (run cs (new_connect_pool mx idx))) []))
    | Destroyed \<Rightarrow> True | Aborted \<Rightarrow> False" .
  then show "snd (run cs (new_connect_pool mx idx)) \<noteq> Aborted"
    by (cases "snd (run cs (new_connect_pool mx idx))") simp_all
  assume live: "snd (run cs (new_connect_pool mx idx)) = Live p'"
  with inv have c: "counted p' (length (checked_out cs (fst (run cs (new_connect_pool mx idx))) []))"
    by simp
  from run_max [OF live] have "max_m p' = mx" by (simp add: new_connect_pool_def)
  with c show "length (checked_out cs (fst (run cs (new_connect_pool mx idx))) []) + length (pool_m p')
           \<le> unat mx"
    by (simp add: counted_def word_le_nat_alt)
qed

text \<open>
  C1 at a failing input. The pool has capacity 2 and idle TTL 0. Two connections are
  checked out and the first is returned at time 100: the sweep is due, runs
  \<^verbatim>\<open>check_idle(0)\<close> and stores 0 in \<^verbatim>\<open>count_\<close> (line 225) while \<open>conn2\<close> is still checked out.
  Two more checkouts then open \<open>conn3\<close> and \<open>conn4\<close>: the caller holds three connections of
  a pool of capacity 2.
\<close>

theorem sweep_zero_breaks_capacity:
  "run [Set_idle_ttl 0, Peek 10 conn1 True, Peek 11 conn2 True, Put conn1 True 100,
        Peek 101 conn3 True, Peek 102 conn4 True] (new_connect_pool 2 0)
     = ([Void, Conn (Some conn1), Conn (Some conn2), Void, Conn (Some conn3), Conn (Some conn4)],
        Live ((new_connect_pool 2 0)\<lparr>count_m := 2, idle_ttl_m := 0, last_check_m := 100,
                total_used_m := 4, current_used_m := 4\<rparr>)) \<and>
   checked_out [Set_idle_ttl 0, Peek 10 conn1 True, Peek 11 conn2 True, Put conn1 True 100,
        Peek 101 conn3 True, Peek 102 conn4 True]
       [Void, Conn (Some conn1), Conn (Some conn2), Void, Conn (Some conn3), Conn (Some conn4)] []
     = [4, 3, 2] \<and>
   unat (max_m (new_connect_pool 2 0)) = 2"
  by (simp add: peek_def put_def check_idle_def set_idle_ttl_def new_connect_pool_def Let_def
        word_le_nat_alt)

text \<open>
  C9 at a failing input. The same pool and the same first four calls; then \<open>conn2\<close>, checked
  out from this pool and not returned before, is returned not to be kept. \<^verbatim>\<open>count_\<close> is 0
  and \<^verbatim>\<open>acl_assert(count_ > 0)\<close> fails.
\<close>

theorem sweep_zero_trips_assert:
  "run [Set_idle_ttl 0, Peek 10 conn1 True, Peek 11 conn2 True, Put conn1 True 100,
        Put conn2 False 101] (new_connect_pool 2 0)
     = ([Void, Conn (Some conn1), Conn (Some conn2), Void, Void], Aborted)"
  by (simp add: peek_def put_def check_idle_def set_idle_ttl_def new_connect_pool_def Let_def
        word_le_nat_alt)

end
